theory Spec2Isabelle
  imports Complex_Main
begin

section \<open>Syntax trees\<close>

text \<open>
  The renamer works on the tree of Python's \<open>ast\<close> module (the Python 3 tree, version
  3.8 and later: position-only parameters are a field of \<open>arguments\<close>, a variadic
  parameter is an \<open>arg\<close> node, and a list comprehension has a scope of its own). The
  passes attach attributes to the nodes; a node is told from every other by its
  identity, which is the number \<open>nid\<close> here, and the attached attributes are kept in
  the state, under that number.

  Only the classes that the passes tell apart have a constructor. Every other class is
  \<open>Other\<close>, with its class name and its child nodes in the order of
  \<open>ast.iter_child_nodes\<close>. A \<open>Name\<close> carries the class name of its \<open>parent\<close>, the
  attribute that \<open>add_parent\<close> has set before the namespaces are created.
\<close>

datatype expr_context = Load | Store | Del

text \<open>
  The value of a \<open>Constant\<close> node, by its Python type. \<open>OtherValue\<close> is a value of any other
  type (a \<open>frozenset\<close>, a \<open>Fraction\<close>): it carries the name of its type and the outcome of
  the two comparisons that the visitor makes with it, \<open>value in [None, True, False]\<close> and
  \<open>value == Ellipsis\<close>, which are up to the \<open>__eq__\<close> of that type (\<open>Fraction(1) == True\<close>
  holds).
\<close>

datatype constant_value =
    NoneValue | BoolValue bool | IntValue int | FloatValue real | ComplexValue complex
  | StrValue string | BytesValue string | EllipsisValue
  | OtherValue (type_name: string) (in_name_constants: bool) (eq_ellipsis: bool)

record attributes =
  nid :: nat
  lineno :: nat
  col_offset :: nat

datatype (plugins only: code) node =
    Name attributes string expr_context string
  | Global attributes "string list"
  | Nonlocal attributes "string list"
  | Constant attributes constant_value
  | Other attributes string "node list"
  | FunctionDefNode functiondef
  | LambdaNode lambda
  | ClassDefNode classdef
  | CompNode comp
and functiondef =
    FunctionDef (fd_attributes: attributes) (fd_is_async: bool) (fd_name: string)
      (fd_args: arguments) (fd_body: "node list") (fd_decorator_list: "node list")
      (fd_returns: "node option") (fd_type_params: "node list")
and lambda =
    Lambda (lambda_attributes: attributes) (lambda_args: arguments) (lambda_body: node)
and classdef =
    ClassDef (cd_attributes: attributes) (cd_name: string) (cd_bases: "node list")
      (cd_keywords: "node list") (cd_body: "node list") (cd_decorator_list: "node list")
      (cd_type_params: "node list")
and comp =
    GeneratorExp (comp_attributes: attributes) node "comprehension list"
  | SetComp (comp_attributes: attributes) node "comprehension list"
  | ListComp (comp_attributes: attributes) node "comprehension list"
  | DictComp (comp_attributes: attributes) node node "comprehension list"
and arguments =
    Arguments (arguments_attributes: attributes) (posonlyargs: "arg list") (args: "arg list")
      (vararg: "arg option") (kwonlyargs: "arg list") (kw_defaults: "node option list")
      (kwarg: "arg option") (defaults: "node list")
and arg =
    Arg (arg_attributes: attributes) (arg_name: string) (annotation: "node option")
and comprehension =
    Comprehension (comprehension_attributes: attributes) (target: node) (iter: node)
      (ifs: "node list") (is_async: bool)

definition node_at :: "nat \<Rightarrow> attributes" where
  "node_at i = \<lparr>nid = i, lineno = 0, col_offset = 0\<rparr>"


section \<open>Namespaces and bindings\<close>

text \<open>
  The renamer of python\_minifier keeps a tree of \<open>Namespace\<close> objects
  (\<^verbatim>\<open>rename/namespace.py\<close>). Objects are mutable and referred to by reference, so the
  tree is modelled as an arena: a list of namespace records, a reference being an index
  into it. A namespace created later gets the next free index.
\<close>

datatype error = AttributeError | AssertionError | RuntimeError string

datatype namespace_kind =
  ModuleNamespace | AnnotationNamespace | FunctionNamespace | ClassNamespace

datatype binding_kind = NameBinding | BuiltinBinding

text \<open>
  Modelled from the spec: the classes \<open>NameBinding\<close> and \<open>BuiltinBinding\<close> of
  \<^verbatim>\<open>rename/binding.py\<close>, which is not among the sources. A binding has its name text, the
  ordered list of its reference occurrences (node numbers), and a rename-allowed flag that
  starts true and can only be turned off (\<open>disallow_rename\<close>).
\<close>

record binding =
  binding_name :: string
  references :: "nat list"
  allow_rename :: bool
  binding_kind :: binding_kind

definition new_NameBinding :: "string \<Rightarrow> binding" where
  "new_NameBinding n =
     \<lparr>binding_name = n, references = [], allow_rename = True, binding_kind = NameBinding\<rparr>"

definition new_BuiltinBinding :: "string \<Rightarrow> binding" where
  "new_BuiltinBinding n =
     \<lparr>binding_name = n, references = [], allow_rename = True, binding_kind = BuiltinBinding\<rparr>"

definition disallow_rename :: "binding \<Rightarrow> binding" where
  "disallow_rename b = b\<lparr>allow_rename := False\<rparr>"

text \<open>
  \<open>Namespace.__init__\<close>. The field \<open>tainted_private\<close> is the attribute \<open>_tainted\<close> that
  \<open>taint()\<close> sets and the property \<open>is_tainted\<close> reads. The field \<open>tainted\<close> is the
  instance attribute of that name, which the class does not declare: it is absent
  (\<open>None\<close>) until some code assigns it.
\<close>

record namespace =
  kind :: namespace_kind
  name :: string
  node :: node
  parent_namespace :: "nat option"
  bindings :: "binding list"
  global_names :: "string set"
  nonlocal_names :: "string set"
  children :: "nat list"
  tainted_private :: bool
  assigned_names :: "string set"
  tainted :: "bool option"

definition new_Namespace :: "namespace_kind \<Rightarrow> node \<Rightarrow> string \<Rightarrow> namespace" where
  "new_Namespace k nd nm =
     \<lparr>kind = k, name = nm, node = nd, parent_namespace = None, bindings = [],
      global_names = {}, nonlocal_names = {}, children = [], tainted_private = False,
      assigned_names = {}, tainted = None\<rparr>"

definition taint :: "namespace \<Rightarrow> namespace" where
  "taint N = N\<lparr>tainted_private := True\<rparr>"

definition is_tainted :: "namespace \<Rightarrow> bool" where
  "is_tainted N = tainted_private N"

type_synonym heap = "namespace list"

definition ns_at :: "heap \<Rightarrow> nat \<Rightarrow> namespace option" where
  "ns_at h n = (if n < length h then Some (h ! n) else None)"

text \<open>
  \<open>Namespace.add_child\<close>, for a child that has just been allocated at index \<open>c\<close>.
\<close>

definition add_child :: "nat \<Rightarrow> nat \<Rightarrow> heap \<Rightarrow> heap" where
  "add_child p c h =
     (let h1 = h[c := (h ! c)\<lparr>parent_namespace := Some p\<rparr>]
      in h1[p := (h1 ! p)\<lparr>children := children (h1 ! p) @ [c]\<rparr>])"

section \<open>Walking up the namespace tree\<close>

text \<open>
  \<^verbatim>\<open>rename/util.py\<close>. Both walks follow \<open>parent_namespace\<close>; on a heap whose parent
  links form a cycle they would not return, so they are partial functions, \<open>None\<close>
  standing for a walk that never ends. Reading an attribute of Python's \<open>None\<close> (a
  namespace without a parent that is not the module) raises \<open>AttributeError\<close>.
\<close>

partial_function (option) get_global_namespace :: "heap \<Rightarrow> nat \<Rightarrow> (error + nat) option" where
  "get_global_namespace h n =
     (case ns_at h n of
        None \<Rightarrow> Some (Inl AttributeError)
      | Some N \<Rightarrow>
          if kind N = ModuleNamespace then Some (Inr n)
          else (case parent_namespace N of
                  None \<Rightarrow> Some (Inl AttributeError)
                | Some p \<Rightarrow> get_global_namespace h p))"

partial_function (option) get_nonlocal_namespace ::
  "heap \<Rightarrow> nat \<Rightarrow> (error + nat option) option" where
  "get_nonlocal_namespace h n =
     (case ns_at h n of
        None \<Rightarrow> Some (Inl AttributeError)
      | Some N \<Rightarrow>
          (case parent_namespace N of
             None \<Rightarrow> Some (Inr None)
           | Some p \<Rightarrow>
               (case ns_at h p of
                  None \<Rightarrow> Some (Inl AttributeError)
                | Some P \<Rightarrow>
                    if kind P = ClassNamespace then get_nonlocal_namespace h p
                    else Some (Inr (Some p)))))"

section \<open>Resolving a name\<close>

text \<open>
  \<open>get_binding\<close> of \<^verbatim>\<open>rename/resolve_names.py\<close>. The result is a reference to the binding
  found or created, as the pair of the owning namespace and the position in its
  \<open>bindings\<close> list, together with the heap after the call. \<open>dir(builtins)\<close> is the host
  interpreter's table of builtin names and is a parameter.
\<close>

fun find_binding :: "string \<Rightarrow> binding list \<Rightarrow> nat option" where
  "find_binding nm [] = None"
| "find_binding nm (b # bs) =
     (if binding_name b = nm then Some 0 else map_option Suc (find_binding nm bs))"

definition introspecting_builtins :: "string list" where
  "introspecting_builtins = [''exec'', ''eval'', ''locals'', ''globals'', ''vars'']"

type_synonym binding_ref = "nat \<times> nat"

definition create_builtin_binding :: "string \<Rightarrow> nat \<Rightarrow> namespace \<Rightarrow> heap \<Rightarrow> binding_ref \<times> heap" where
  "create_builtin_binding nm n N h =
     (let N1 = (if nm \<in> set introspecting_builtins then N\<lparr>tainted := Some True\<rparr> else N);
          b = new_BuiltinBinding nm
      in ((n, length (bindings N1)), h[n := N1\<lparr>bindings := bindings N1 @ [b]\<rparr>]))"

definition create_unresolved_binding :: "string \<Rightarrow> nat \<Rightarrow> namespace \<Rightarrow> heap \<Rightarrow> binding_ref \<times> heap" where
  "create_unresolved_binding nm n N h =
     (let b = disallow_rename (new_NameBinding nm)
      in ((n, length (bindings N)), h[n := N\<lparr>bindings := bindings N @ [b]\<rparr>]))"

partial_function (option) get_binding ::
  "string set \<Rightarrow> string \<Rightarrow> nat \<Rightarrow> heap \<Rightarrow> (error + binding_ref \<times> heap) option" where
  "get_binding builtins nm n h =
     (case ns_at h n of
        None \<Rightarrow> Some (Inl AttributeError)
      | Some N \<Rightarrow>
          if nm \<in> global_names N \<and> kind N \<noteq> ModuleNamespace then
            Option.bind (get_global_namespace h n)
              (\<lambda>r. case r of
                      Inl e \<Rightarrow> Some (Inl e)
                    | Inr g \<Rightarrow> get_binding builtins nm g h)
          else if nm \<in> nonlocal_names N \<and> kind N \<noteq> ModuleNamespace then
            Option.bind (get_nonlocal_namespace h n)
              (\<lambda>r. case r of
                      Inl e \<Rightarrow> Some (Inl e)
                    | Inr None \<Rightarrow> Some (Inl AttributeError)
                    | Inr (Some p) \<Rightarrow> get_binding builtins nm p h)
          else
            (case find_binding nm (bindings N) of
               Some i \<Rightarrow> Some (Inr ((n, i), h))
             | None \<Rightarrow>
                 if kind N \<noteq> ModuleNamespace then
                   Option.bind (get_nonlocal_namespace h n)
                     (\<lambda>r. case r of
                             Inl e \<Rightarrow> Some (Inl e)
                           | Inr None \<Rightarrow> Some (Inl AttributeError)
                           | Inr (Some p) \<Rightarrow> get_binding builtins nm p h)
                 else if nm \<in> builtins then Some (Inr (create_builtin_binding nm n N h))
                 else Some (Inr (create_unresolved_binding nm n N h))))"

section \<open>Well-formed namespace trees\<close>

text \<open>
  Every namespace but the module has a parent, and \<open>add_child\<close> is only ever called with
  a namespace that has just been created, so a parent is older than its children: in
  the arena its index is smaller. The module namespace is the only one without a parent.
\<close>

definition wf_heap :: "heap \<Rightarrow> bool" where
  "wf_heap h = (\<forall>n < length h.
      case parent_namespace (h ! n) of
        None \<Rightarrow> kind (h ! n) = ModuleNamespace
      | Some p \<Rightarrow> p < n \<and> kind (h ! n) \<noteq> ModuleNamespace)"

text \<open>
  \<open>encloses h n a\<close>: \<open>a\<close> is \<open>n\<close> itself or one of its ancestors.
  \<open>skips_classes h n p\<close>: \<open>p\<close> is a proper ancestor of \<open>n\<close> and every namespace strictly
  between the two is a class namespace.
\<close>

inductive encloses :: "heap \<Rightarrow> nat \<Rightarrow> nat \<Rightarrow> bool" for h where
  self: "encloses h n n"
| parent: "parent_namespace (h ! n) = Some p \<Longrightarrow> encloses h p a \<Longrightarrow> encloses h n a"

inductive skips_classes :: "heap \<Rightarrow> nat \<Rightarrow> nat \<Rightarrow> bool" for h where
  direct: "parent_namespace (h ! n) = Some p \<Longrightarrow> skips_classes h n p"
| through: "parent_namespace (h ! n) = Some q \<Longrightarrow> kind (h ! q) = ClassNamespace \<Longrightarrow>
     skips_classes h q p \<Longrightarrow> skips_classes h n p"

text \<open>A binding reference that points at a binding of the given name.\<close>

definition valid_ref :: "heap \<Rightarrow> string \<Rightarrow> binding_ref \<Rightarrow> bool" where
  "valid_ref h nm r = (fst r < length h \<and> snd r < length (bindings (h ! fst r))
     \<and> binding_name (bindings (h ! fst r) ! snd r) = nm)"

section \<open>Namespace trees of the test suite\<close>

text \<open>
  The heaps below are the namespace trees that \<^verbatim>\<open>test/renaming/test_resolve_names.py\<close>
  expects after the namespaces have been created and the names bound. Resolution does
  not read the syntax nodes, so the namespaces below hold nodes without their bodies.
\<close>

definition module_stub :: node where
  "module_stub = Other (node_at 0) ''Module'' []"

definition def_stub :: "nat \<Rightarrow> string \<Rightarrow> node" where
  "def_stub i nm =
     FunctionDefNode (FunctionDef (node_at i) False nm
       (Arguments (node_at (Suc i)) [] [] None [] [] None []) [] [] None [])"

definition class_stub :: "nat \<Rightarrow> string \<Rightarrow> node" where
  "class_stub i nm = ClassDefNode (ClassDef (node_at i) nm [] [] [] [] [])"

definition ref_binding :: "string \<Rightarrow> nat list \<Rightarrow> binding" where
  "ref_binding nm refs = (new_NameBinding nm)\<lparr>references := refs\<rparr>"

definition host_builtins :: "string set" where
  "host_builtins =
     {''print'', ''len'', ''range'', ''exec'', ''eval'', ''locals'', ''globals'', ''vars''}"

text \<open>
  \<open>test_resolve\<close>:
  \<^verbatim>\<open>A = 'hello'\<close>, \<^verbatim>\<open>A = 'helloagain'\<close>, \<^verbatim>\<open>print(A + A)\<close>.
\<close>

definition resolve_heap :: heap where
  "resolve_heap =
     [(new_Namespace ModuleNamespace module_stub '''')\<lparr>bindings := [ref_binding ''A'' [2, 5]]\<rparr>]"

text \<open>
  \<open>test_global_skips_function\<close>:
  \<^verbatim>\<open>B = 2\<close>, then \<^verbatim>\<open>def A():\<close> with \<^verbatim>\<open>B = 4\<close> and a nested \<^verbatim>\<open>def C():\<close> that
  declares \<^verbatim>\<open>global B\<close> and assigns \<^verbatim>\<open>B = 1\<close>.
\<close>

definition global_skips_function_heap :: heap where
  "global_skips_function_heap =
     [(new_Namespace ModuleNamespace module_stub '''')
        \<lparr>bindings := [ref_binding ''B'' [2], ref_binding ''A'' [4]], children := [1]\<rparr>,
      (new_Namespace FunctionNamespace (def_stub 4 ''A'') ''A'')
        \<lparr>parent_namespace := Some 0, bindings := [ref_binding ''B'' [7], ref_binding ''C'' [9]],
         children := [2]\<rparr>,
      (new_Namespace FunctionNamespace (def_stub 9 ''C'') ''C'')
        \<lparr>parent_namespace := Some 1, global_names := {''B''}\<rparr>]"

text \<open>
  \<open>test_nonlocal_skips_class\<close>:
  \<^verbatim>\<open>def A():\<close> with \<^verbatim>\<open>att = 3\<close> and a \<^verbatim>\<open>class B:\<close> whose body has \<^verbatim>\<open>att = 4\<close>
  and a method \<^verbatim>\<open>def C(self):\<close> that declares \<^verbatim>\<open>nonlocal att\<close>.
\<close>

definition nonlocal_skips_class_heap :: heap where
  "nonlocal_skips_class_heap =
     [(new_Namespace ModuleNamespace module_stub '''')
        \<lparr>bindings := [ref_binding ''A'' [1]], children := [1]\<rparr>,
      (new_Namespace FunctionNamespace (def_stub 1 ''A'') ''A'')
        \<lparr>parent_namespace := Some 0, bindings := [ref_binding ''att'' [3], ref_binding ''B'' [5]],
         children := [2]\<rparr>,
      (new_Namespace ClassNamespace (class_stub 5 ''B'') ''B'')
        \<lparr>parent_namespace := Some 1, bindings := [ref_binding ''att'' [7], ref_binding ''C'' [9]],
         children := [3]\<rparr>,
      (new_Namespace FunctionNamespace (def_stub 9 ''C'') ''C'')
        \<lparr>parent_namespace := Some 2, bindings := [ref_binding ''self'' [11]],
         nonlocal_names := {''att''}\<rparr>]"

text \<open>
  A class body that declares a name global and reads it, inside a function that binds
  the same name:
  \<^verbatim>\<open>x = 1\<close>, then \<^verbatim>\<open>def f():\<close> with \<^verbatim>\<open>x = 2\<close> and a \<^verbatim>\<open>class C:\<close> whose body is
  \<^verbatim>\<open>global x\<close>, \<^verbatim>\<open>y = x\<close>. The read puts \<open>x\<close> into the class namespace's nonlocal
  names, the declaration into its global names.
\<close>

definition class_global_read_heap :: heap where
  "class_global_read_heap =
     [(new_Namespace ModuleNamespace module_stub '''')
        \<lparr>bindings := [ref_binding ''x'' [2], ref_binding ''f'' [4]], children := [1]\<rparr>,
      (new_Namespace FunctionNamespace (def_stub 4 ''f'') ''f'')
        \<lparr>parent_namespace := Some 0, bindings := [ref_binding ''x'' [7], ref_binding ''C'' [9]],
         children := [2]\<rparr>,
      (new_Namespace ClassNamespace (class_stub 9 ''C'') ''C'')
        \<lparr>parent_namespace := Some 1, bindings := [ref_binding ''y'' [12]],
         global_names := {''x''}, nonlocal_names := {''x''}\<rparr>]"

text \<open>
  \<open>test_class_scope_rebinding_from_parent\<close>:
  \<^verbatim>\<open>A = 1\<close>, then \<^verbatim>\<open>class Class:\<close> with the body \<^verbatim>\<open>A = A + 1\<close>. The state is the one
  in which the body of the class is about to be visited.
\<close>

definition class_scope_heap :: heap where
  "class_scope_heap =
     [(new_Namespace ModuleNamespace module_stub '''')
        \<lparr>bindings := [ref_binding ''A'' [2], ref_binding ''Class'' [4]], children := [1]\<rparr>,
      (new_Namespace ClassNamespace (class_stub 4 ''Class'') ''Class'')
        \<lparr>parent_namespace := Some 0\<rparr>]"

section \<open>Creating the namespaces\<close>

text \<open>
  \<^verbatim>\<open>rename/create_namespaces.py\<close>. The state of the pass is the arena of namespaces and
  the attribute \<open>namespace\<close> of the nodes visited so far, a map from node numbers to
  namespace references.
\<close>

record state =
  namespaces :: heap
  node_namespace :: "nat \<rightharpoonup> nat"

text \<open>\<open>node.namespace = ns\<close>\<close>

definition set_namespace :: "attributes \<Rightarrow> nat \<Rightarrow> state \<Rightarrow> state" where
  "set_namespace a ns s = s\<lparr>node_namespace := (node_namespace s)(nid a \<mapsto> ns)\<rparr>"

text \<open>
  A namespace object is created and handed to \<open>add_child\<close> of its parent at once:
  \<^verbatim>\<open>ns = FunctionNamespace(node, name=...)\<close>, \<^verbatim>\<open>parent_namespace.add_child(ns)\<close>.
\<close>

definition new_child_namespace ::
  "namespace_kind \<Rightarrow> node \<Rightarrow> string \<Rightarrow> nat \<Rightarrow> state \<Rightarrow> nat \<times> state" where
  "new_child_namespace k nd nm p s =
     (let c = length (namespaces s)
      in (c, s\<lparr>namespaces := add_child p c (namespaces s @ [new_Namespace k nd nm])\<rparr>))"

definition update_namespace :: "nat \<Rightarrow> (namespace \<Rightarrow> namespace) \<Rightarrow> state \<Rightarrow> state" where
  "update_namespace n f s = s\<lparr>namespaces := (namespaces s)[n := f (namespaces s ! n)]\<rparr>"

definition is_ClassNamespace :: "state \<Rightarrow> nat \<Rightarrow> bool" where
  "is_ClassNamespace s n =
     (case ns_at (namespaces s) n of None \<Rightarrow> False | Some N \<Rightarrow> kind N = ClassNamespace)"

text \<open>
  The loops of the pass run a visit for each element of a list, in order, or for a
  field that is not \<open>None\<close>. The visits are the recursive calls, so a loop is written as
  the list of its visits, run one after the other by \<open>each\<close>.

  \<open>each_generator\<close> is the loop over the clauses of a comprehension: the variable
  \<open>iter_namespace\<close> is the enclosing namespace for the first clause and the
  comprehension's namespace for every later one.
\<close>

definition each :: "(state \<Rightarrow> state) list \<Rightarrow> state \<Rightarrow> state" where
  "each visits s = fold (\<lambda>visit. visit) visits s"

definition if_present :: "(state \<Rightarrow> state) option \<Rightarrow> state \<Rightarrow> state" where
  "if_present visit s = (case visit of None \<Rightarrow> s | Some v \<Rightarrow> v s)"

definition each_generator ::
  "(nat \<Rightarrow> state \<Rightarrow> state) list \<Rightarrow> nat \<Rightarrow> nat \<Rightarrow> state \<Rightarrow> state" where
  "each_generator visits parent_ns comprehension_ns s =
     (case visits of
        [] \<Rightarrow> s
      | v # vs \<Rightarrow> each (map (\<lambda>v'. v' comprehension_ns) vs) (v parent_ns s))"

text \<open>
  The functions of the pass, by recursion on the tree. \<open>annotation_namespaces arg ns\<close> is
  the visit \<^verbatim>\<open>create_child_namespaces(arg.annotation, ns)\<close> of an annotation that is there.
  When \<open>create_child_namespaces\<close> is called on an \<open>arg\<close> node, of its branches only the
  last one matches, which visits the child nodes: the node gets its namespace, and its
  only child, the annotation, is visited. In \<open>assign_arguments_to_namespace\<close> this call
  is written out; \<open>create_child_namespaces_arg\<close> below names it.
  \<open>comprehension_generator\<close> is the body of the loop over the clauses.
\<close>

primrec create_child_namespaces :: "node \<Rightarrow> nat \<Rightarrow> state \<Rightarrow> state"
and create_functiondef_namespace :: "functiondef \<Rightarrow> nat \<Rightarrow> state \<Rightarrow> state"
and create_lambda_namespace :: "lambda \<Rightarrow> nat \<Rightarrow> state \<Rightarrow> state"
and create_class_namespace :: "classdef \<Rightarrow> nat \<Rightarrow> state \<Rightarrow> state"
and create_comprehension_namespace :: "comp \<Rightarrow> nat \<Rightarrow> state \<Rightarrow> state"
and assign_arguments_to_namespace :: "arguments \<Rightarrow> nat \<Rightarrow> nat \<Rightarrow> state \<Rightarrow> state"
and annotation_namespaces :: "arg \<Rightarrow> nat \<Rightarrow> state \<Rightarrow> state"
and comprehension_generator :: "comprehension \<Rightarrow> nat \<Rightarrow> nat \<Rightarrow> state \<Rightarrow> state"
where
  "create_child_namespaces (FunctionDefNode functiondef) parent_ns s =
     create_functiondef_namespace functiondef parent_ns
       (set_namespace (fd_attributes functiondef) parent_ns s)"
| "create_child_namespaces (CompNode c) parent_ns s =
     create_comprehension_namespace c parent_ns (set_namespace (comp_attributes c) parent_ns s)"
| "create_child_namespaces (LambdaNode lambda) parent_ns s =
     create_lambda_namespace lambda parent_ns
       (set_namespace (lambda_attributes lambda) parent_ns s)"
| "create_child_namespaces (ClassDefNode classdef) parent_ns s =
     create_class_namespace classdef parent_ns (set_namespace (cd_attributes classdef) parent_ns s)"
| "create_child_namespaces (Global a names) parent_ns s =
     update_namespace parent_ns (\<lambda>N. N\<lparr>global_names := global_names N \<union> set names\<rparr>)
       (set_namespace a parent_ns s)"
| "create_child_namespaces (Nonlocal a names) parent_ns s =
     update_namespace parent_ns (\<lambda>N. N\<lparr>nonlocal_names := nonlocal_names N \<union> set names\<rparr>)
       (set_namespace a parent_ns s)"
| "create_child_namespaces (Name a ident ctx parent) parent_ns s =
     (let s1 = set_namespace a parent_ns s
      in if is_ClassNamespace s1 parent_ns then
           if ctx = Load then
             update_namespace parent_ns
               (\<lambda>N. N\<lparr>nonlocal_names := insert ident (nonlocal_names N)\<rparr>) s1
           else if ctx = Store \<and> parent = ''AugAssign'' then
             update_namespace parent_ns
               (\<lambda>N. N\<lparr>nonlocal_names := insert ident (nonlocal_names N)\<rparr>) s1
           else s1
         else s1)"
| "create_child_namespaces (Constant a v) parent_ns s = set_namespace a parent_ns s"
| "create_child_namespaces (Other a cls child_nodes) parent_ns s =
     each (map (\<lambda>child. create_child_namespaces child parent_ns) child_nodes)
       (set_namespace a parent_ns s)"

| "annotation_namespaces (Arg a ident ann) parent_ns s =
     if_present (map_option (\<lambda>child. create_child_namespaces child parent_ns) ann) s"

| "assign_arguments_to_namespace (Arguments a posonly regular var kwonly kwdefaults kw dflts)
       parent_ns function_ns s =
     (let s1 = set_namespace a function_ns s;
          s2 = each (map (\<lambda>arg s. annotation_namespaces arg parent_ns
                                  (annotation_namespaces arg function_ns
                                     (set_namespace (arg_attributes arg) function_ns s))) posonly
                     @ map (\<lambda>arg s. annotation_namespaces arg parent_ns
                                  (annotation_namespaces arg function_ns
                                     (set_namespace (arg_attributes arg) function_ns s))) regular) s1;
          s3 = each (map (\<lambda>arg s. annotation_namespaces arg parent_ns
                                  (annotation_namespaces arg function_ns
                                     (set_namespace (arg_attributes arg) function_ns s))) kwonly) s2;
          s4 = each (map if_present
                  (map (map_option (\<lambda>nd. create_child_namespaces nd parent_ns)) kwdefaults)) s3;
          s5 = each (map (\<lambda>nd. create_child_namespaces nd parent_ns) dflts) s4;
          s6 = if_present (map_option (\<lambda>v s. annotation_namespaces v function_ns
                                  (set_namespace (arg_attributes v) function_ns s)) var) s5
      in if_present (map_option (\<lambda>k s. annotation_namespaces k function_ns
                                  (set_namespace (arg_attributes k) function_ns s)) kw) s6)"

| "comprehension_generator (Comprehension a tgt it conds asy) iter_ns comprehension_ns s =
     (let s1 = set_namespace a comprehension_ns s;
          s2 = create_child_namespaces tgt comprehension_ns s1;
          s3 = create_child_namespaces it iter_ns s2
      in each (map (\<lambda>cond. create_child_namespaces cond comprehension_ns) conds) s3)"

| "create_comprehension_namespace (GeneratorExp a elt generators) parent_ns s =
     (case new_child_namespace FunctionNamespace (CompNode (GeneratorExp a elt generators))
             ''GeneratorExp'' parent_ns s of
        (comprehension_ns, s1) \<Rightarrow>
          each_generator (map (\<lambda>g it. comprehension_generator g it comprehension_ns) generators)
            parent_ns comprehension_ns
            (create_child_namespaces elt comprehension_ns s1))"
| "create_comprehension_namespace (SetComp a elt generators) parent_ns s =
     (case new_child_namespace FunctionNamespace (CompNode (SetComp a elt generators))
             ''SetComp'' parent_ns s of
        (comprehension_ns, s1) \<Rightarrow>
          each_generator (map (\<lambda>g it. comprehension_generator g it comprehension_ns) generators)
            parent_ns comprehension_ns
            (create_child_namespaces elt comprehension_ns s1))"
| "create_comprehension_namespace (ListComp a elt generators) parent_ns s =
     (case new_child_namespace FunctionNamespace (CompNode (ListComp a elt generators))
             ''ListComp'' parent_ns s of
        (comprehension_ns, s1) \<Rightarrow>
          each_generator (map (\<lambda>g it. comprehension_generator g it comprehension_ns) generators)
            parent_ns comprehension_ns
            (create_child_namespaces elt comprehension_ns s1))"
| "create_comprehension_namespace (DictComp a k v generators) parent_ns s =
     (case new_child_namespace FunctionNamespace (CompNode (DictComp a k v generators))
             ''DictComp'' parent_ns s of
        (comprehension_ns, s1) \<Rightarrow>
          each_generator (map (\<lambda>g it. comprehension_generator g it comprehension_ns) generators)
            parent_ns comprehension_ns
            (create_child_namespaces v comprehension_ns
               (create_child_namespaces k comprehension_ns s1)))"

| "create_functiondef_namespace (FunctionDef a asy nm arguments body decorator_list returns type_params)
       parent_ns s =
     (let functiondef =
            FunctionDefNode (FunctionDef a asy nm arguments body decorator_list returns type_params)
      in case (if type_params \<noteq> [] then
                 (case new_child_namespace AnnotationNamespace functiondef nm parent_ns s of
                    (annotation_ns, sa) \<Rightarrow>
                      (case new_child_namespace FunctionNamespace functiondef nm annotation_ns sa of
                         (function_ns, sb) \<Rightarrow>
                           (function_ns,
                            each (map (\<lambda>type_param. create_child_namespaces type_param annotation_ns)
                                    type_params) sb)))
               else new_child_namespace FunctionNamespace functiondef nm parent_ns s) of
           (function_ns, s1) \<Rightarrow>
             (let s2 = assign_arguments_to_namespace arguments parent_ns function_ns s1;
                  s3 = each (map (\<lambda>nd. create_child_namespaces nd function_ns) body) s2;
                  s4 = each (map (\<lambda>nd. create_child_namespaces nd parent_ns) decorator_list) s3
              in if_present (map_option (\<lambda>r. create_child_namespaces r parent_ns) returns) s4))"

| "create_lambda_namespace (Lambda a arguments body) parent_ns s =
     (case new_child_namespace FunctionNamespace (LambdaNode (Lambda a arguments body)) ''Lambda''
             parent_ns s of
        (function_ns, s1) \<Rightarrow>
          create_child_namespaces body function_ns
            (assign_arguments_to_namespace arguments parent_ns function_ns s1))"

| "create_class_namespace (ClassDef a nm bases keywords body decorator_list type_params)
       parent_ns s =
     (let classdef = ClassDefNode (ClassDef a nm bases keywords body decorator_list type_params)
      in case (if type_params \<noteq> [] then
                 (case new_child_namespace AnnotationNamespace classdef nm parent_ns s of
                    (annotation_ns, sa) \<Rightarrow>
                      (case new_child_namespace ClassNamespace classdef nm annotation_ns sa of
                         (class_ns, sb) \<Rightarrow>
                           (class_ns,
                            each (map (\<lambda>type_param. create_child_namespaces type_param annotation_ns)
                                    type_params) sb)))
               else new_child_namespace ClassNamespace classdef nm parent_ns s) of
           (class_ns, s1) \<Rightarrow>
             (let s2 = each (map (\<lambda>nd. create_child_namespaces nd parent_ns) bases) s1;
                  s3 = each (map (\<lambda>nd. create_child_namespaces nd parent_ns) keywords) s2;
                  s4 = each (map (\<lambda>nd. create_child_namespaces nd class_ns) body) s3
              in each (map (\<lambda>nd. create_child_namespaces nd parent_ns) decorator_list) s4))"

definition create_child_namespaces_arg :: "arg \<Rightarrow> nat \<Rightarrow> state \<Rightarrow> state" where
  "create_child_namespaces_arg arg ns s =
     annotation_namespaces arg ns (set_namespace (arg_attributes arg) ns s)"

text \<open>\<open>create_all_namespaces\<close>: the module namespace is the first of the arena.\<close>

definition create_all_namespaces :: "node \<Rightarrow> error + nat \<times> state" where
  "create_all_namespaces tree =
     (case tree of
        Other a cls body \<Rightarrow>
          if cls = ''Module'' then
            Inr (0, create_child_namespaces tree 0
                      \<lparr>namespaces = [new_Namespace ModuleNamespace tree ''''],
                       node_namespace = Map.empty\<rparr>)
          else Inl AssertionError
      | _ \<Rightarrow> Inl AssertionError)"

definition class_scope_state :: state where
  "class_scope_state = \<lparr>namespaces = class_scope_heap, node_namespace = Map.empty\<rparr>"

section \<open>The nodes of a tree\<close>

text \<open>
  The numbers of the nodes of a tree, in the order of a walk from the root. For a
  definition, a lambda, a class and a comprehension the list is of the nodes below the
  root, which \<open>node_ids\<close> then puts first. In a tree that a parser has built no node
  occurs twice: the list is \<open>distinct\<close>.
\<close>

definition option_ids :: "nat list option \<Rightarrow> nat list" where
  "option_ids x = (case x of None \<Rightarrow> [] | Some l \<Rightarrow> l)"

primrec node_ids :: "node \<Rightarrow> nat list"
and functiondef_ids :: "functiondef \<Rightarrow> nat list"
and lambda_ids :: "lambda \<Rightarrow> nat list"
and classdef_ids :: "classdef \<Rightarrow> nat list"
and comp_ids :: "comp \<Rightarrow> nat list"
and arguments_ids :: "arguments \<Rightarrow> nat list"
and arg_ids :: "arg \<Rightarrow> nat list"
and comprehension_ids :: "comprehension \<Rightarrow> nat list"
where
  "node_ids (Name a ident ctx parent) = [nid a]"
| "node_ids (Global a names) = [nid a]"
| "node_ids (Nonlocal a names) = [nid a]"
| "node_ids (Constant a v) = [nid a]"
| "node_ids (Other a cls child_nodes) = nid a # concat (map node_ids child_nodes)"
| "node_ids (FunctionDefNode functiondef) =
     nid (fd_attributes functiondef) # functiondef_ids functiondef"
| "node_ids (LambdaNode lambda) = nid (lambda_attributes lambda) # lambda_ids lambda"
| "node_ids (ClassDefNode classdef) = nid (cd_attributes classdef) # classdef_ids classdef"
| "node_ids (CompNode c) = nid (comp_attributes c) # comp_ids c"
| "functiondef_ids (FunctionDef a asy nm arguments body decorator_list returns type_params) =
     concat (map node_ids type_params) @ arguments_ids arguments @ concat (map node_ids body)
     @ concat (map node_ids decorator_list) @ option_ids (map_option node_ids returns)"
| "lambda_ids (Lambda a arguments body) = arguments_ids arguments @ node_ids body"
| "classdef_ids (ClassDef a nm bases keywords body decorator_list type_params) =
     concat (map node_ids type_params) @ concat (map node_ids bases)
     @ concat (map node_ids keywords) @ concat (map node_ids body)
     @ concat (map node_ids decorator_list)"
| "comp_ids (GeneratorExp a elt generators) =
     node_ids elt @ concat (map comprehension_ids generators)"
| "comp_ids (SetComp a elt generators) =
     node_ids elt @ concat (map comprehension_ids generators)"
| "comp_ids (ListComp a elt generators) =
     node_ids elt @ concat (map comprehension_ids generators)"
| "comp_ids (DictComp a k v generators) =
     node_ids k @ node_ids v @ concat (map comprehension_ids generators)"
| "arguments_ids (Arguments a posonly regular var kwonly kwdefaults kw dflts) =
     nid a # concat (map arg_ids posonly) @ concat (map arg_ids regular)
     @ concat (map arg_ids kwonly)
     @ concat (map option_ids (map (map_option node_ids) kwdefaults))
     @ concat (map node_ids dflts)
     @ option_ids (map_option arg_ids var) @ option_ids (map_option arg_ids kw)"
| "arg_ids (Arg a ident ann) = nid a # option_ids (map_option node_ids ann)"
| "comprehension_ids (Comprehension a tgt it conds asy) =
     nid a # node_ids tgt @ node_ids it @ concat (map node_ids conds)"

text \<open>The number of the root of a tree.\<close>

definition root_id :: "node \<Rightarrow> nat" where
  "root_id n = hd (node_ids n)"

text \<open>
  The nodes that introduce a namespace, the kind of the namespace each introduces, and
  whether an annotation namespace is put in between.
\<close>

definition introduces_namespace :: "node \<Rightarrow> bool" where
  "introduces_namespace n =
     (case n of FunctionDefNode f \<Rightarrow> True | LambdaNode l \<Rightarrow> True | ClassDefNode c \<Rightarrow> True
      | CompNode c \<Rightarrow> True | _ \<Rightarrow> False)"

definition introduced_kind :: "node \<Rightarrow> namespace_kind" where
  "introduced_kind n = (case n of ClassDefNode c \<Rightarrow> ClassNamespace | _ \<Rightarrow> FunctionNamespace)"

definition type_params_of :: "node \<Rightarrow> node list" where
  "type_params_of n =
     (case n of FunctionDefNode f \<Rightarrow> fd_type_params f | ClassDefNode c \<Rightarrow> cd_type_params c
      | _ \<Rightarrow> [])"

section \<open>How the arena grows\<close>

text \<open>
  \<open>heap_extends h h'\<close>: every namespace of \<open>h\<close> is still there in \<open>h'\<close>, of the same
  kind, with the same name, introducing node and parent. \<open>grows s s'\<close>: the arena of \<open>s'\<close>
  extends that of \<open>s\<close>, and is a well-formed tree if that of \<open>s\<close> is.
\<close>

definition heap_extends :: "heap \<Rightarrow> heap \<Rightarrow> bool" where
  "heap_extends h h' =
     (length h \<le> length h'
      \<and> (\<forall>i < length h. kind (h' ! i) = kind (h ! i) \<and> name (h' ! i) = name (h ! i)
            \<and> node (h' ! i) = node (h ! i)
            \<and> parent_namespace (h' ! i) = parent_namespace (h ! i)))"

definition grows :: "state \<Rightarrow> state \<Rightarrow> bool" where
  "grows s s' =
     (heap_extends (namespaces s) (namespaces s')
      \<and> (wf_heap (namespaces s) \<longrightarrow> wf_heap (namespaces s')))"

section \<open>May a parameter be renamed in place\<close>

text \<open>
  \<open>arg_rename_in_place\<close> of \<^verbatim>\<open>rename/util.py\<close>. The node is a parameter, an \<open>arg\<close> node;
  \<open>func_node\<close> is the node that introduced the namespace the parameter belongs to.
  \<open>x is y\<close> and \<open>x in ys\<close> compare nodes by identity. Reading an attribute that the
  object does not have raises \<open>AttributeError\<close>: the namespace of a node that was never
  visited, or \<open>args\<close> of a node that is neither a function definition nor a lambda.

  The first test of the source, \<open>isinstance(func_node, ast.comprehension)\<close>, asks for a
  clause of a comprehension. A namespace is introduced by a module, a definition, a lambda
  or a whole comprehension, which are the values of the field \<open>node\<close>; a clause is none of
  them, so the test is false for every namespace and has no branch here.
\<close>

definition same_node :: "arg \<Rightarrow> arg \<Rightarrow> bool" where
  "same_node x y = (nid (arg_attributes x) = nid (arg_attributes y))"

definition is_classmethod_decorator :: "node \<Rightarrow> bool" where
  "is_classmethod_decorator d =
     (case d of Name a ident ctx parent \<Rightarrow> ident = ''classmethod'' | _ \<Rightarrow> False)"

definition starargs_or_posonly :: "arguments \<Rightarrow> arg \<Rightarrow> bool" where
  "starargs_or_posonly arguments nd =
     (if (case vararg arguments of None \<Rightarrow> False | Some v \<Rightarrow> same_node v nd)
         \<or> (case kwarg arguments of None \<Rightarrow> False | Some k \<Rightarrow> same_node k nd)
      then True
      else if \<exists>p \<in> set (posonlyargs arguments). same_node nd p then True
      else False)"

definition arg_rename_in_place :: "state \<Rightarrow> arg \<Rightarrow> error + bool" where
  "arg_rename_in_place s nd =
     (case node_namespace s (nid (arg_attributes nd)) of
        None \<Rightarrow> Inl AttributeError
      | Some ns \<Rightarrow>
          (case ns_at (namespaces s) ns of
             None \<Rightarrow> Inl AttributeError
           | Some N \<Rightarrow>
               (case node N of
                  FunctionDefNode func_node \<Rightarrow>
                    (case node_namespace s (nid (fd_attributes func_node)) of
                       None \<Rightarrow> Inl AttributeError
                     | Some func_ns \<Rightarrow>
                         if is_ClassNamespace s func_ns then
                           if length (args (fd_args func_node)) > 0
                              \<and> same_node nd (args (fd_args func_node) ! 0) then
                             if length (fd_decorator_list func_node) = 0 then Inr True
                             else if length (fd_decorator_list func_node) = 1
                                     \<and> is_classmethod_decorator (fd_decorator_list func_node ! 0)
                             then Inr True
                             else Inr (starargs_or_posonly (fd_args func_node) nd)
                           else Inr (starargs_or_posonly (fd_args func_node) nd)
                         else Inr (starargs_or_posonly (fd_args func_node) nd))
                | LambdaNode func_node \<Rightarrow>
                    (case node_namespace s (nid (lambda_attributes func_node)) of
                       None \<Rightarrow> Inl AttributeError
                     | Some func_ns \<Rightarrow> Inr (starargs_or_posonly (lambda_args func_node) nd))
                | _ \<Rightarrow> Inl AttributeError)))"

text \<open>
  All parameters of a function, in the order of a call: the position-only ones, those that
  can be passed by position or by keyword, \<open>*args\<close>, the keyword-only ones, \<open>**kwargs\<close>.
  The first positional parameter of a function is the first of
  \<open>posonlyargs @ args\<close>.
\<close>

definition parameters :: "arguments \<Rightarrow> arg list" where
  "parameters ar =
     posonlyargs ar @ args ar @ (case vararg ar of None \<Rightarrow> [] | Some v \<Rightarrow> [v])
       @ kwonlyargs ar @ (case kwarg ar of None \<Rightarrow> [] | Some k \<Rightarrow> [k])"

text \<open>
  A method whose first parameter is position-only, in a class at module level:
  \<^verbatim>\<open>class K:\<close> with \<^verbatim>\<open>@staticmethod\<close>, \<^verbatim>\<open>def f(a, /): pass\<close>.
\<close>

definition staticmethod_first_param :: arg where
  "staticmethod_first_param = Arg (node_at 4) ''a'' None"

definition staticmethod_def :: functiondef where
  "staticmethod_def =
     FunctionDef (node_at 2) False ''f''
       (Arguments (node_at 3) [staticmethod_first_param] [] None [] [] None [])
       [Other (node_at 5) ''Pass'' []]
       [Name (node_at 6) ''staticmethod'' Load ''FunctionDef'']
       None []"

definition staticmethod_module :: node where
  "staticmethod_module =
     Other (node_at 0) ''Module''
       [ClassDefNode (ClassDef (node_at 1) ''K'' [] [] [FunctionDefNode staticmethod_def] [] [])]"

text \<open>
  A class with three methods: \<^verbatim>\<open>def m(self, x): pass\<close>, then \<^verbatim>\<open>@classmethod\<close>
  \<^verbatim>\<open>def c(cls): pass\<close>, then \<^verbatim>\<open>@staticmethod\<close> \<^verbatim>\<open>def t(v): pass\<close>.
\<close>

definition method_self :: arg where
  "method_self = Arg (node_at 4) ''self'' None"

definition method_def :: functiondef where
  "method_def =
     FunctionDef (node_at 2) False ''m''
       (Arguments (node_at 3) [] [method_self, Arg (node_at 5) ''x'' None] None [] [] None [])
       [Other (node_at 6) ''Pass'' []] [] None []"

definition method_module :: node where
  "method_module =
     Other (node_at 0) ''Module''
       [ClassDefNode (ClassDef (node_at 1) ''K'' [] [] [FunctionDefNode method_def] [] [])]"

section \<open>Dispatch on the value of a constant\<close>

text \<open>
  \<open>NodeVisitor\<close> of \<^verbatim>\<open>transforms/suite_transformer.py\<close>. A visitor is the table of its
  \<open>visit_...\<close> methods, by name, and its \<open>generic_visit\<close>, which is what
  \<open>getattr(self, method, self.generic_visit)\<close> falls back to.

  The tests of \<open>visit_Constant\<close> are made in the order of the source. The first,
  \<open>node.value in [None, True, False]\<close>, compares with \<open>==\<close> before any test of the type, so
  the numbers 0 and 1 pass it, and so does a value of a type the visitor does not know
  that compares equal to one of the three. The last, \<open>node.value == Ellipsis\<close>, is a
  comparison too. The message of the error is built with \<open>%r\<close> of the type.
\<close>

record 'r visitor =
  methods :: "string \<rightharpoonup> (node \<Rightarrow> 'r)"
  generic_visit :: "node \<Rightarrow> 'r"

definition type_repr :: "string \<Rightarrow> string" where
  "type_repr t = ''<class '' @ [CHR 0x27] @ t @ [CHR 0x27] @ ''>''"

definition constant_method :: "constant_value \<Rightarrow> error + string" where
  "constant_method v =
     (case v of
        NoneValue \<Rightarrow> Inr ''visit_NameConstant''
      | BoolValue b \<Rightarrow> Inr ''visit_NameConstant''
      | IntValue i \<Rightarrow> if i = 1 \<or> i = 0 then Inr ''visit_NameConstant'' else Inr ''visit_Num''
      | FloatValue x \<Rightarrow> if x = 1 \<or> x = 0 then Inr ''visit_NameConstant'' else Inr ''visit_Num''
      | ComplexValue z \<Rightarrow> if z = 1 \<or> z = 0 then Inr ''visit_NameConstant'' else Inr ''visit_Num''
      | StrValue x \<Rightarrow> Inr ''visit_Str''
      | BytesValue x \<Rightarrow> Inr ''visit_Bytes''
      | EllipsisValue \<Rightarrow> Inr ''visit_Ellipsis''
      | OtherValue t is_name_constant is_ellipsis \<Rightarrow>
          if is_name_constant then Inr ''visit_NameConstant''
          else if is_ellipsis then Inr ''visit_Ellipsis''
          else Inl (RuntimeError (''Unknown Constant value '' @ type_repr t)))"

definition visit_Constant :: "'r visitor \<Rightarrow> attributes \<Rightarrow> constant_value \<Rightarrow> error + 'r" where
  "visit_Constant self a v =
     (case constant_method v of
        Inl e \<Rightarrow> Inl e
      | Inr method \<Rightarrow>
          Inr ((case methods self method of None \<Rightarrow> generic_visit self | Some visitor \<Rightarrow> visitor)
                 (Constant a v)))"

text \<open>A visitor without methods of its own that counts the nodes it is given.\<close>

definition counting_visitor :: "nat visitor" where
  "counting_visitor = \<lparr>methods = Map.empty, generic_visit = (\<lambda>n. 1)\<rparr>"

section \<open>Parts of a comprehension, and trees used as examples\<close>

text \<open>
  The four comprehension constructs differ in their element expressions and in the name given
  to their namespace only.
\<close>

definition comp_generators :: "comp \<Rightarrow> comprehension list" where
  "comp_generators c =
     (case c of GeneratorExp a e gs \<Rightarrow> gs | SetComp a e gs \<Rightarrow> gs | ListComp a e gs \<Rightarrow> gs
      | DictComp a k v gs \<Rightarrow> gs)"

definition comp_elements :: "comp \<Rightarrow> node list" where
  "comp_elements c =
     (case c of GeneratorExp a e gs \<Rightarrow> [e] | SetComp a e gs \<Rightarrow> [e] | ListComp a e gs \<Rightarrow> [e]
      | DictComp a k v gs \<Rightarrow> [k, v])"

definition comp_name :: "comp \<Rightarrow> string" where
  "comp_name c =
     (case c of GeneratorExp a e gs \<Rightarrow> ''GeneratorExp'' | SetComp a e gs \<Rightarrow> ''SetComp''
      | ListComp a e gs \<Rightarrow> ''ListComp'' | DictComp a k v gs \<Rightarrow> ''DictComp'')"

text \<open>
  \<^verbatim>\<open>def f[T](x: T = D) -> T: pass\<close> as a module. The type parameter is a \<open>TypeVar\<close> node,
  which holds its name as a string.
\<close>

definition generic_def :: functiondef where
  "generic_def =
     FunctionDef (node_at 1) False ''f''
       (Arguments (node_at 2) []
          [Arg (node_at 3) ''x'' (Some (Name (node_at 4) ''T'' Load ''arg''))]
          None [] [] None
          [Name (node_at 5) ''D'' Load ''arguments''])
       [Other (node_at 6) ''Pass'' []]
       []
       (Some (Name (node_at 7) ''T'' Load ''FunctionDef''))
       [Other (node_at 8) ''TypeVar'' []]"

definition generic_module :: node where
  "generic_module = Other (node_at 0) ''Module'' [FunctionDefNode generic_def]"

definition module_state :: "node \<Rightarrow> state" where
  "module_state tree =
     \<lparr>namespaces = [new_Namespace ModuleNamespace tree ''''], node_namespace = Map.empty\<rparr>"

text \<open>
  \<^verbatim>\<open>[y for x in xs if x for y in x]\<close>, a comprehension with two clauses.
\<close>

definition nested_comp :: comp where
  "nested_comp =
     ListComp (node_at 1) (Name (node_at 2) ''y'' Load ''ListComp'')
       [Comprehension (node_at 3) (Name (node_at 4) ''x'' Store ''comprehension'')
          (Name (node_at 5) ''xs'' Load ''comprehension'')
          [Name (node_at 6) ''x'' Load ''comprehension''] False,
        Comprehension (node_at 7) (Name (node_at 8) ''y'' Store ''comprehension'')
          (Name (node_at 9) ''x'' Load ''comprehension'') [] False]"

text \<open>The state after the namespaces of that module have been created.\<close>

definition generic_def_state :: state where
  "generic_def_state = create_child_namespaces generic_module 0 (module_state generic_module)"

text \<open>
  Modelled from the spec: the pass that binds names (\<^verbatim>\<open>rename/bind_names.py\<close>) is not among
  the sources. The test \<open>test_function_type_params\<close> expects it to leave the name of the
  function in the module namespace, the type parameter in the annotation namespace and the
  parameter in the function namespace; the heap below is the heap of \<open>generic_def_state\<close>
  with these bindings.
\<close>

definition generic_def_bound :: heap where
  "generic_def_bound =
     [(namespaces generic_def_state ! 0)\<lparr>bindings := [ref_binding ''f'' [1]]\<rparr>,
      (namespaces generic_def_state ! 1)\<lparr>bindings := [ref_binding ''T'' [8]]\<rparr>,
      (namespaces generic_def_state ! 2)\<lparr>bindings := [ref_binding ''x'' [3]]\<rparr>]"

section \<open>Properties of the walks and of name resolution\<close>

lemma wf_heap_parent:
  "wf_heap h \<Longrightarrow> n < length h \<Longrightarrow> parent_namespace (h ! n) = Some p \<Longrightarrow>
     p < n \<and> kind (h ! n) \<noteq> ModuleNamespace"
  unfolding wf_heap_def by (auto split: option.splits)

lemma wf_heap_root:
  "wf_heap h \<Longrightarrow> n < length h \<Longrightarrow> parent_namespace (h ! n) = None \<Longrightarrow>
     kind (h ! n) = ModuleNamespace"
  unfolding wf_heap_def by (auto split: option.splits)

lemma wf_heap_nonmodule:
  "wf_heap h \<Longrightarrow> n < length h \<Longrightarrow> kind (h ! n) \<noteq> ModuleNamespace \<Longrightarrow>
     \<exists>p. parent_namespace (h ! n) = Some p \<and> p < n"
  unfolding wf_heap_def by (force split: option.splits)

lemma get_global_namespace_total:
  "wf_heap h \<Longrightarrow> n < length h \<Longrightarrow>
     \<exists>g. get_global_namespace h n = Some (Inr g) \<and> g \<le> n \<and> kind (h ! g) = ModuleNamespace"
proof (induction n rule: less_induct)
  case (less n)
  show ?case
  proof (cases "kind (h ! n) = ModuleNamespace")
    case True
    with less.prems show ?thesis
      by (subst get_global_namespace.simps) (simp add: ns_at_def)
  next
    case False
    with less.prems obtain p where p: "parent_namespace (h ! n) = Some p" "p < n"
      using wf_heap_nonmodule by blast
    with less.prems have "p < length h" by simp
    from less.IH [OF p(2) less.prems(1) this] obtain g where
      g: "get_global_namespace h p = Some (Inr g)" "g \<le> p" "kind (h ! g) = ModuleNamespace"
      by blast
    have "get_global_namespace h n = get_global_namespace h p"
      using False p less.prems by (subst get_global_namespace.simps) (simp add: ns_at_def)
    with g p show ?thesis by auto
  qed
qed

lemma get_nonlocal_namespace_total:
  "wf_heap h \<Longrightarrow> n < length h \<Longrightarrow> kind (h ! n) \<noteq> ModuleNamespace \<Longrightarrow>
     \<exists>p. get_nonlocal_namespace h n = Some (Inr (Some p)) \<and> p < n
        \<and> kind (h ! p) \<noteq> ClassNamespace \<and> skips_classes h n p"
proof (induction n rule: less_induct)
  case (less n)
  from less.prems obtain q where q: "parent_namespace (h ! n) = Some q" "q < n"
    using wf_heap_nonmodule by blast
  with less.prems have ql: "q < length h" by simp
  show ?case
  proof (cases "kind (h ! q) = ClassNamespace")
    case False
    have "get_nonlocal_namespace h n = Some (Inr (Some q))"
      using False q ql less.prems by (subst get_nonlocal_namespace.simps) (simp add: ns_at_def)
    with False q show ?thesis by (auto intro: skips_classes.direct)
  next
    case True
    then have "kind (h ! q) \<noteq> ModuleNamespace" by simp
    from less.IH [OF q(2) less.prems(1) ql this] obtain p where
      p: "get_nonlocal_namespace h q = Some (Inr (Some p))" "p < q"
         "kind (h ! p) \<noteq> ClassNamespace" "skips_classes h q p"
      by blast
    have "get_nonlocal_namespace h n = get_nonlocal_namespace h q"
      using True q ql less.prems by (subst get_nonlocal_namespace.simps) (simp add: ns_at_def)
    with p q True show ?thesis by (auto intro: skips_classes.through)
  qed
qed


lemma find_binding_Some:
  "find_binding nm bs = Some i \<Longrightarrow> i < length bs \<and> binding_name (bs ! i) = nm"
proof (induction bs arbitrary: i)
  case Nil
  then show ?case by simp
next
  case (Cons b bs)
  then show ?case by (cases i) (auto split: if_splits)
qed

lemma find_binding_append_new:
  "find_binding nm bs = None \<Longrightarrow> binding_name b = nm \<Longrightarrow>
     find_binding nm (bs @ [b]) = Some (length bs)"
  by (induction bs) auto

lemma get_binding_global_step:
  "ns_at h n = Some N \<Longrightarrow> nm \<in> global_names N \<Longrightarrow> kind N \<noteq> ModuleNamespace \<Longrightarrow>
     get_global_namespace h n = Some (Inr g) \<Longrightarrow>
     get_binding bi nm n h = get_binding bi nm g h"
  by (subst get_binding.simps) simp

lemma get_binding_nonlocal_step:
  "ns_at h n = Some N \<Longrightarrow> nm \<notin> global_names N \<Longrightarrow> nm \<in> nonlocal_names N \<Longrightarrow>
     kind N \<noteq> ModuleNamespace \<Longrightarrow> get_nonlocal_namespace h n = Some (Inr (Some p)) \<Longrightarrow>
     get_binding bi nm n h = get_binding bi nm p h"
  by (subst get_binding.simps) simp

lemma get_binding_local_step:
  "ns_at h n = Some N \<Longrightarrow> nm \<notin> global_names N \<or> kind N = ModuleNamespace \<Longrightarrow>
     nm \<notin> nonlocal_names N \<or> kind N = ModuleNamespace \<Longrightarrow>
     find_binding nm (bindings N) = Some i \<Longrightarrow>
     get_binding bi nm n h = Some (Inr ((n, i), h))"
  by (subst get_binding.simps) auto

lemma get_binding_parent_step:
  "ns_at h n = Some N \<Longrightarrow> nm \<notin> global_names N \<Longrightarrow> nm \<notin> nonlocal_names N \<Longrightarrow>
     kind N \<noteq> ModuleNamespace \<Longrightarrow> find_binding nm (bindings N) = None \<Longrightarrow>
     get_nonlocal_namespace h n = Some (Inr (Some p)) \<Longrightarrow>
     get_binding bi nm n h = get_binding bi nm p h"
  by (subst get_binding.simps) simp

lemma get_binding_module_builtin:
  "ns_at h n = Some N \<Longrightarrow> kind N = ModuleNamespace \<Longrightarrow> find_binding nm (bindings N) = None \<Longrightarrow>
     nm \<in> bi \<Longrightarrow> get_binding bi nm n h = Some (Inr (create_builtin_binding nm n N h))"
  by (subst get_binding.simps) simp

lemma get_binding_module_unresolved:
  "ns_at h n = Some N \<Longrightarrow> kind N = ModuleNamespace \<Longrightarrow> find_binding nm (bindings N) = None \<Longrightarrow>
     nm \<notin> bi \<Longrightarrow> get_binding bi nm n h = Some (Inr (create_unresolved_binding nm n N h))"
  by (subst get_binding.simps) simp

lemma create_builtin_binding_valid:
  "n < length h \<Longrightarrow> create_builtin_binding nm n N h = (r, h') \<Longrightarrow>
     valid_ref h' nm r \<and> fst r = n \<and> length h' = length h"
  by (auto simp: create_builtin_binding_def valid_ref_def Let_def new_BuiltinBinding_def nth_append)

lemma create_unresolved_binding_valid:
  "n < length h \<Longrightarrow> create_unresolved_binding nm n N h = (r, h') \<Longrightarrow>
     valid_ref h' nm r \<and> fst r = n \<and> length h' = length h"
  by (auto simp: create_unresolved_binding_def valid_ref_def Let_def new_NameBinding_def
        disallow_rename_def nth_append)

lemma get_global_namespace_encloses:
  "wf_heap h \<Longrightarrow> n < length h \<Longrightarrow> get_global_namespace h n = Some (Inr g) \<Longrightarrow> encloses h n g"
proof (induction n rule: less_induct)
  case (less n)
  show ?case
  proof (cases "kind (h ! n) = ModuleNamespace")
    case True
    with less.prems have "g = n"
      by (subst (asm) get_global_namespace.simps) (simp add: ns_at_def)
    then show ?thesis by (simp add: encloses.self)
  next
    case False
    with less.prems obtain p where p: "parent_namespace (h ! n) = Some p" "p < n"
      using wf_heap_nonmodule by blast
    with less.prems have pl: "p < length h" by simp
    have "get_global_namespace h n = get_global_namespace h p"
      using False p less.prems by (subst get_global_namespace.simps) (simp add: ns_at_def)
    with less.prems have "get_global_namespace h p = Some (Inr g)" by simp
    from less.IH [OF p(2) less.prems(1) pl this] p(1) show ?thesis
      by (rule encloses.parent [rotated])
  qed
qed

lemma encloses_trans: "encloses h a b \<Longrightarrow> encloses h b c \<Longrightarrow> encloses h a c"
  by (induction rule: encloses.induct) (auto intro: encloses.intros)

lemma skips_classes_encloses: "skips_classes h n p \<Longrightarrow> encloses h n p"
  by (induction rule: skips_classes.induct) (auto intro: encloses.intros)

lemma get_binding_total:
  "wf_heap h \<Longrightarrow> n < length h \<Longrightarrow>
     \<exists>r h'. get_binding bi nm n h = Some (Inr (r, h')) \<and> fst r \<le> n \<and> valid_ref h' nm r
        \<and> length h' = length h \<and> encloses h n (fst r)"
proof (induction n rule: less_induct)
  case (less n)
  let ?N = "h ! n"
  have at: "ns_at h n = Some ?N" using less.prems by (simp add: ns_at_def)
  show ?case
  proof (cases "kind ?N = ModuleNamespace")
    case True
    show ?thesis
    proof (cases "find_binding nm (bindings ?N)")
      case (Some i)
      have "get_binding bi nm n h = Some (Inr ((n, i), h))"
        using at True Some by (intro get_binding_local_step) auto
      moreover have "valid_ref h nm (n, i)"
        using find_binding_Some [OF Some] less.prems by (simp add: valid_ref_def)
      ultimately show ?thesis by (auto intro: encloses.self)
    next
      case None
      show ?thesis
      proof (cases "nm \<in> bi")
        case True
        obtain r h' where c: "create_builtin_binding nm n ?N h = (r, h')" by (cases "create_builtin_binding nm n ?N h")
        have "get_binding bi nm n h = Some (Inr (r, h'))"
          using get_binding_module_builtin [OF at \<open>kind ?N = ModuleNamespace\<close> None True] c by simp
        with create_builtin_binding_valid [OF less.prems(2) c] show ?thesis
          by (auto intro: encloses.self)
      next
        case False
        obtain r h' where c: "create_unresolved_binding nm n ?N h = (r, h')" by (cases "create_unresolved_binding nm n ?N h")
        have "get_binding bi nm n h = Some (Inr (r, h'))"
          using get_binding_module_unresolved [OF at \<open>kind ?N = ModuleNamespace\<close> None False] c by simp
        with create_unresolved_binding_valid [OF less.prems(2) c] show ?thesis
          by (auto intro: encloses.self)
      qed
    qed
  next
    case False
    from get_nonlocal_namespace_total [OF less.prems False] obtain p where
      p: "get_nonlocal_namespace h n = Some (Inr (Some p))" "p < n" "skips_classes h n p"
      by blast
    from less.prems p have pl: "p < length h" by simp
    have np: "encloses h n p" by (rule skips_classes_encloses [OF p(3)])
    from less.IH [OF p(2) less.prems(1) pl] obtain rp hp where
      rp: "get_binding bi nm p h = Some (Inr (rp, hp))" "fst rp \<le> p" "valid_ref hp nm rp"
          "length hp = length h" "encloses h p (fst rp)" by blast
    have nrp: "encloses h n (fst rp)" by (rule encloses_trans [OF np rp(5)])
    from get_global_namespace_total [OF less.prems] obtain g where
      g: "get_global_namespace h n = Some (Inr g)" "g \<le> n" "kind (h ! g) = ModuleNamespace" by blast
    with False have gn: "g < n" by (cases "g = n") auto
    with less.prems have gl: "g < length h" by simp
    have ng: "encloses h n g" by (rule get_global_namespace_encloses [OF less.prems g(1)])
    from less.IH [OF gn less.prems(1) gl] obtain rg hg where
      rg: "get_binding bi nm g h = Some (Inr (rg, hg))" "fst rg \<le> g" "valid_ref hg nm rg"
          "length hg = length h" "encloses h g (fst rg)" by blast
    have nrg: "encloses h n (fst rg)" by (rule encloses_trans [OF ng rg(5)])
    consider (glob) "nm \<in> global_names ?N"
      | (nonl) "nm \<notin> global_names ?N" "nm \<in> nonlocal_names ?N"
      | (loc) i where "nm \<notin> global_names ?N" "nm \<notin> nonlocal_names ?N" "find_binding nm (bindings ?N) = Some i"
      | (up) "nm \<notin> global_names ?N" "nm \<notin> nonlocal_names ?N" "find_binding nm (bindings ?N) = None"
      by (cases "find_binding nm (bindings ?N)") auto
    then show ?thesis
    proof cases
      case glob
      have "get_binding bi nm n h = get_binding bi nm g h"
        by (rule get_binding_global_step [OF at glob False g(1)])
      with rg gn nrg show ?thesis by auto
    next
      case nonl
      have "get_binding bi nm n h = get_binding bi nm p h"
        by (rule get_binding_nonlocal_step [OF at nonl False p(1)])
      with rp p nrp show ?thesis by auto
    next
      case loc
      have "get_binding bi nm n h = Some (Inr ((n, i), h))"
        using at loc by (intro get_binding_local_step) auto
      moreover have "valid_ref h nm (n, i)"
        using find_binding_Some [OF loc(3)] less.prems by (simp add: valid_ref_def)
      ultimately show ?thesis by (auto intro: encloses.self)
    next
      case up
      have "get_binding bi nm n h = get_binding bi nm p h"
        by (rule get_binding_parent_step [OF at up(1,2) False up(3) p(1)])
      with rp p nrp show ?thesis by auto
    qed
  qed
qed

lemma get_binding_module:
  "n < length h \<Longrightarrow> kind (h ! n) = ModuleNamespace \<Longrightarrow>
     \<exists>i h'. get_binding bi nm n h = Some (Inr ((n, i), h'))"
  by (subst get_binding.simps)
     (auto simp: ns_at_def create_builtin_binding_def create_unresolved_binding_def Let_def
           split: option.splits)

lemma get_binding_builtin_once:
  assumes "m < length h" and "kind (h ! m) = ModuleNamespace"
    and "find_binding nm (bindings (h ! m)) = None" and "nm \<in> builtins"
  shows "\<exists>h'. get_binding builtins nm m h = Some (Inr ((m, length (bindings (h ! m))), h'))
           \<and> bindings (h' ! m) = bindings (h ! m) @ [new_BuiltinBinding nm]
           \<and> is_tainted (h' ! m) = is_tainted (h ! m)
           \<and> get_binding builtins nm m h' = Some (Inr ((m, length (bindings (h ! m))), h'))"
proof -
  let ?N = "h ! m"
  obtain r h' where c: "create_builtin_binding nm m ?N h = (r, h')"
    by (cases "create_builtin_binding nm m ?N h")
  have at: "ns_at h m = Some ?N" using assms(1) by (simp add: ns_at_def)
  have 1: "get_binding builtins nm m h = Some (Inr (r, h'))"
    using get_binding_module_builtin [OF at assms(2,3,4)] c by simp
  have r: "r = (m, length (bindings ?N))"
    and b: "bindings (h' ! m) = bindings ?N @ [new_BuiltinBinding nm]"
    and k: "kind (h' ! m) = ModuleNamespace" and l: "length h' = length h"
    and t: "is_tainted (h' ! m) = is_tainted ?N"
    using c assms(1,2) by (auto simp: create_builtin_binding_def Let_def is_tainted_def split: if_splits)
  have at': "ns_at h' m = Some (h' ! m)" using assms(1) l by (simp add: ns_at_def)
  have "find_binding nm (bindings (h' ! m)) = Some (length (bindings ?N))"
    unfolding b by (rule find_binding_append_new [OF assms(3)]) (simp add: new_BuiltinBinding_def)
  then have "get_binding builtins nm m h' = Some (Inr ((m, length (bindings ?N)), h'))"
    using at' k by (intro get_binding_local_step) auto
  with 1 r b t show ?thesis by simp
qed

lemma wf_global_skips_function_heap: "wf_heap global_skips_function_heap"
  by (simp add: wf_heap_def global_skips_function_heap_def new_Namespace_def less_Suc_eq numeral_3_eq_3)

lemma wf_nonlocal_skips_class_heap: "wf_heap nonlocal_skips_class_heap"
  by (simp add: wf_heap_def nonlocal_skips_class_heap_def new_Namespace_def less_Suc_eq
        numeral_3_eq_3 eval_nat_numeral)

section \<open>Claims about name resolution\<close>

text \<open>
  C1, as stated, at a concrete tree: in \<open>class_global_read_heap\<close> the name \<open>x\<close> is in the
  nonlocal names of the class namespace 2, which is not the module, and the nearest
  enclosing namespace that is not a class is the function namespace 1, where \<open>x\<close> is
  bound. Yet \<open>get_binding\<close> from the class namespace returns the module's binding, since
  the name is in the global names too and that test comes first.
\<close>

theorem C1_counterexample:
  "''x'' \<in> nonlocal_names (class_global_read_heap ! 2)
   \<and> kind (class_global_read_heap ! 2) \<noteq> ModuleNamespace
   \<and> get_nonlocal_namespace class_global_read_heap 2 = Some (Inr (Some 1))
   \<and> get_binding {} ''x'' 1 class_global_read_heap = Some (Inr ((1, 0), class_global_read_heap))
   \<and> get_binding {} ''x'' 2 class_global_read_heap = Some (Inr ((0, 0), class_global_read_heap))"
  by (simp add: get_binding.simps get_nonlocal_namespace.simps get_global_namespace.simps
        ns_at_def class_global_read_heap_def new_Namespace_def ref_binding_def new_NameBinding_def)

text \<open>
  C1 (amended): for a name in the nonlocal names of a namespace that is not the module,
  and not also in its global names, \<open>get_binding\<close> resolves the name in the nearest
  enclosing namespace that is not a class namespace: \<open>get_nonlocal_namespace\<close> returns a
  proper ancestor \<open>p\<close> that is not a class, reached through class namespaces only, and the
  result is that of resolving in \<open>p\<close>. In particular, for a method \<open>n\<close> in a class \<open>c\<close> in
  a function \<open>f\<close> that binds the name, the result is the binding of \<open>f\<close>, whatever the
  class body binds.
\<close>

theorem C1_nonlocal_resolves_past_classes:
  assumes "wf_heap h" and "n < length h"
    and "nm \<in> nonlocal_names (h ! n)" and "nm \<notin> global_names (h ! n)"
    and "kind (h ! n) \<noteq> ModuleNamespace"
  shows "(\<exists>p. get_nonlocal_namespace h n = Some (Inr (Some p)) \<and> skips_classes h n p
            \<and> kind (h ! p) \<noteq> ClassNamespace
            \<and> get_binding bi nm n h = get_binding bi nm p h)
       \<and> (parent_namespace (h ! n) = Some c \<and> kind (h ! c) = ClassNamespace
            \<and> parent_namespace (h ! c) = Some f \<and> kind (h ! f) = FunctionNamespace
            \<and> nm \<notin> global_names (h ! f) \<and> nm \<notin> nonlocal_names (h ! f)
            \<and> find_binding nm (bindings (h ! f)) = Some i
          \<longrightarrow> get_binding bi nm n h = Some (Inr ((f, i), h)) \<and> f \<noteq> c)"
proof (intro conjI impI)
  have at: "ns_at h n = Some (h ! n)" using assms(2) by (simp add: ns_at_def)
  from get_nonlocal_namespace_total [OF assms(1,2,5)] obtain p where
    p: "get_nonlocal_namespace h n = Some (Inr (Some p))" "p < n"
       "kind (h ! p) \<noteq> ClassNamespace" "skips_classes h n p" by blast
  have step: "get_binding bi nm n h = get_binding bi nm p h"
    by (rule get_binding_nonlocal_step [OF at assms(4,3,5) p(1)])
  with p show "\<exists>p. get_nonlocal_namespace h n = Some (Inr (Some p)) \<and> skips_classes h n p
            \<and> kind (h ! p) \<noteq> ClassNamespace
            \<and> get_binding bi nm n h = get_binding bi nm p h" by blast
  assume a: "parent_namespace (h ! n) = Some c \<and> kind (h ! c) = ClassNamespace
            \<and> parent_namespace (h ! c) = Some f \<and> kind (h ! f) = FunctionNamespace
            \<and> nm \<notin> global_names (h ! f) \<and> nm \<notin> nonlocal_names (h ! f)
            \<and> find_binding nm (bindings (h ! f)) = Some i"
  from a assms(1,2) have cn: "c < n" using wf_heap_parent by blast
  with assms(2) have cl: "c < length h" by simp
  from a assms(1) cl have fc: "f < c" using wf_heap_parent by blast
  with cl have fl: "f < length h" by simp
  have "get_nonlocal_namespace h c = Some (Inr (Some f))"
    using a cl fl by (subst get_nonlocal_namespace.simps) (simp add: ns_at_def)
  then have "get_nonlocal_namespace h n = Some (Inr (Some f))"
    using a cl assms(2) by (subst get_nonlocal_namespace.simps) (simp add: ns_at_def)
  with p(1) have "p = f" by simp
  moreover have "get_binding bi nm f h = Some (Inr ((f, i), h))"
    using a fl by (intro get_binding_local_step) (auto simp: ns_at_def)
  ultimately show "get_binding bi nm n h = Some (Inr ((f, i), h))" using step by simp
  from fc show "f \<noteq> c" by simp
qed

text \<open>
  Witness for C1 on \<open>test_nonlocal_skips_class\<close>: \<open>att\<close>, declared nonlocal in the method
  \<open>C\<close>, resolves to the first binding of the function \<open>A\<close>, although the class \<open>B\<close> binds
  \<open>att\<close> as well.
\<close>

theorem C1_witness:
  "get_binding {} ''att'' 3 nonlocal_skips_class_heap
     = Some (Inr ((1, 0), nonlocal_skips_class_heap))
   \<and> find_binding ''att'' (bindings (nonlocal_skips_class_heap ! 2)) = Some 0"
proof -
  have l: "3 < length nonlocal_skips_class_heap"
    and nl: "''att'' \<in> nonlocal_names (nonlocal_skips_class_heap ! 3)"
    and g: "''att'' \<notin> global_names (nonlocal_skips_class_heap ! 3)"
    and k: "kind (nonlocal_skips_class_heap ! 3) \<noteq> ModuleNamespace"
    by (simp_all add: nonlocal_skips_class_heap_def new_Namespace_def)
  have scen: "parent_namespace (nonlocal_skips_class_heap ! 3) = Some 2
      \<and> kind (nonlocal_skips_class_heap ! 2) = ClassNamespace
      \<and> parent_namespace (nonlocal_skips_class_heap ! 2) = Some 1
      \<and> kind (nonlocal_skips_class_heap ! 1) = FunctionNamespace
      \<and> ''att'' \<notin> global_names (nonlocal_skips_class_heap ! 1)
      \<and> ''att'' \<notin> nonlocal_names (nonlocal_skips_class_heap ! 1)
      \<and> find_binding ''att'' (bindings (nonlocal_skips_class_heap ! 1)) = Some 0"
    by (simp add: nonlocal_skips_class_heap_def new_Namespace_def ref_binding_def new_NameBinding_def)
  from C1_nonlocal_resolves_past_classes [OF wf_nonlocal_skips_class_heap l nl g k,
      where c = 2 and f = 1 and i = 0 and bi = "{}"] scen
  have "get_binding {} ''att'' 3 nonlocal_skips_class_heap
     = Some (Inr ((1, 0), nonlocal_skips_class_heap))" by blast
  then show ?thesis
    by (simp add: nonlocal_skips_class_heap_def new_Namespace_def ref_binding_def new_NameBinding_def)
qed



text \<open>
  C6: a name that is not bound in the module namespace and is not a builtin does not make
  \<open>get_binding\<close> fail. A new binding with the name unchanged, no references and renaming
  disallowed is appended to the module's bindings and returned; resolving the same name
  again returns that binding and leaves the heap as it is.
\<close>

theorem C6_unresolved_placeholder:
  assumes "m < length h" and "kind (h ! m) = ModuleNamespace"
    and "find_binding nm (bindings (h ! m)) = None" and "nm \<notin> builtins"
  shows "\<exists>h'. get_binding builtins nm m h = Some (Inr ((m, length (bindings (h ! m))), h'))
           \<and> h' = h[m := (h ! m)\<lparr>bindings := bindings (h ! m) @
                  [\<lparr>binding_name = nm, references = [], allow_rename = False,
                    binding_kind = NameBinding\<rparr>]\<rparr>]
           \<and> get_binding builtins nm m h' = Some (Inr ((m, length (bindings (h ! m))), h'))"
proof -
  let ?N = "h ! m"
  let ?b = "\<lparr>binding_name = nm, references = [], allow_rename = False, binding_kind = NameBinding\<rparr>"
  let ?h' = "h[m := ?N\<lparr>bindings := bindings ?N @ [?b]\<rparr>]"
  have at: "ns_at h m = Some ?N" using assms(1) by (simp add: ns_at_def)
  have c: "create_unresolved_binding nm m ?N h = ((m, length (bindings ?N)), ?h')"
    by (simp add: create_unresolved_binding_def Let_def disallow_rename_def new_NameBinding_def)
  have 1: "get_binding builtins nm m h = Some (Inr ((m, length (bindings ?N)), ?h'))"
    using get_binding_module_unresolved [OF at assms(2,3,4)] c by simp
  have at': "ns_at ?h' m = Some (?h' ! m)" using assms(1) by (simp add: ns_at_def)
  have k: "kind (?h' ! m) = ModuleNamespace" using assms(1,2) by simp
  have b: "bindings (?h' ! m) = bindings ?N @ [?b]" using assms(1) by simp
  have "find_binding nm (bindings (?h' ! m)) = Some (length (bindings ?N))"
    unfolding b by (rule find_binding_append_new [OF assms(3)]) simp
  then have "get_binding builtins nm m ?h' = Some (Inr ((m, length (bindings ?N)), ?h'))"
    using at' k by (intro get_binding_local_step) auto
  with 1 show ?thesis by blast
qed

text \<open>Witness for C6: an unknown name in the module of \<open>test_resolve\<close>.\<close>

theorem C6_witness:
  "get_binding host_builtins ''undefined_name'' 0 resolve_heap
     = Some (Inr ((0, 1),
         [(new_Namespace ModuleNamespace module_stub '''')
            \<lparr>bindings := [ref_binding ''A'' [2, 5],
               \<lparr>binding_name = ''undefined_name'', references = [], allow_rename = False,
                binding_kind = NameBinding\<rparr>]\<rparr>]))"
proof -
  have l: "0 < length resolve_heap" and k: "kind (resolve_heap ! 0) = ModuleNamespace"
    and f: "find_binding ''undefined_name'' (bindings (resolve_heap ! 0)) = None"
    and b: "''undefined_name'' \<notin> host_builtins"
    by (simp_all add: resolve_heap_def new_Namespace_def ref_binding_def new_NameBinding_def
          host_builtins_def)
  from C6_unresolved_placeholder [OF l k f b] show ?thesis
    by (simp add: resolve_heap_def new_Namespace_def ref_binding_def new_NameBinding_def)
qed

text \<open>
  C7 at the module \<^verbatim>\<open>eval('1')\<close>: resolving \<open>eval\<close> in the empty module namespace
  creates the builtin binding and assigns the attribute \<open>tainted\<close>; the attribute
  \<open>_tainted\<close>, which \<open>is_tainted\<close> reads, is left false.
\<close>

theorem C7_eval_taint_not_observable:
  "get_binding host_builtins ''eval'' 0 [new_Namespace ModuleNamespace module_stub '''']
     = Some (Inr ((0, 0),
         [(new_Namespace ModuleNamespace module_stub '''')
            \<lparr>bindings := [new_BuiltinBinding ''eval''], tainted := Some True\<rparr>]))
   \<and> is_tainted ((new_Namespace ModuleNamespace module_stub '''')
            \<lparr>bindings := [new_BuiltinBinding ''eval''], tainted := Some True\<rparr>) = False"
  by (simp add: get_binding.simps ns_at_def new_Namespace_def host_builtins_def
        create_builtin_binding_def introspecting_builtins_def is_tainted_def Let_def)

section \<open>Claims about the rename policy and the visitor\<close>



text \<open>
  C8, as stated, at a concrete input: in the class \<open>K\<close> the method \<open>f\<close> has one decorator,
  \<open>staticmethod\<close>, and its first positional parameter \<open>a\<close> is position-only. The
  parameter belongs to the namespace of \<open>f\<close>, \<open>f\<close> to the class namespace, and
  \<open>arg_rename_in_place\<close> returns true.
\<close>

theorem C8_counterexample:
  "(case create_all_namespaces staticmethod_module of
      Inl e \<Rightarrow> False
    | Inr (m, s) \<Rightarrow>
        arg_rename_in_place s staticmethod_first_param = Inr True
        \<and> node_namespace s (nid (arg_attributes staticmethod_first_param)) = Some 2
        \<and> node (namespaces s ! 2) = FunctionDefNode staticmethod_def
        \<and> node_namespace s (nid (fd_attributes staticmethod_def)) = Some 1
        \<and> kind (namespaces s ! 1) = ClassNamespace)
   \<and> posonlyargs (fd_args staticmethod_def) @ args (fd_args staticmethod_def)
        = [staticmethod_first_param]
   \<and> fd_decorator_list staticmethod_def = [Name (node_at 6) ''staticmethod'' Load ''FunctionDef'']"
  by (simp add: create_all_namespaces_def staticmethod_module_def staticmethod_def_def
        staticmethod_first_param_def each_def if_present_def new_child_namespace_def add_child_def
        set_namespace_def new_Namespace_def node_at_def arg_rename_in_place_def ns_at_def
        is_ClassNamespace_def starargs_or_posonly_def same_node_def update_namespace_def)

text \<open>
  C8 (amended): for the first positional parameter of a function definition in a class
  namespace, that is, the first of \<open>posonlyargs @ args\<close>, \<open>arg_rename_in_place\<close> returns
  true if and only if the parameter is position-only, or the definition has no decorator,
  or it has exactly one decorator that is the name \<open>classmethod\<close>. The parameters of the
  function are distinct nodes.
\<close>

theorem C8_first_positional_parameter:
  assumes "node_namespace s (nid (arg_attributes nd)) = Some ns"
    and "ns_at (namespaces s) ns = Some N"
    and "node N = FunctionDefNode f"
    and "node_namespace s (nid (fd_attributes f)) = Some cns"
    and "is_ClassNamespace s cns"
    and "posonlyargs (fd_args f) @ args (fd_args f) \<noteq> []"
    and "same_node nd ((posonlyargs (fd_args f) @ args (fd_args f)) ! 0)"
    and "distinct (map (\<lambda>p. nid (arg_attributes p)) (parameters (fd_args f)))"
  shows "arg_rename_in_place s nd =
           Inr (posonlyargs (fd_args f) \<noteq> []
                \<or> fd_decorator_list f = []
                \<or> (\<exists>d. fd_decorator_list f = [d] \<and> is_classmethod_decorator d))"
proof (cases "posonlyargs (fd_args f)")
  case Nil
  have one: "(length (fd_decorator_list f) = 1 \<and> is_classmethod_decorator (fd_decorator_list f ! 0))
         \<longleftrightarrow> (\<exists>d. fd_decorator_list f = [d] \<and> is_classmethod_decorator d)"
    by (cases "fd_decorator_list f") auto
  from assms(6,7) Nil obtain x xs where x: "args (fd_args f) = x # xs" "same_node nd x"
    by (cases "args (fd_args f)") auto
  have "\<not> starargs_or_posonly (fd_args f) nd"
    using assms(8) Nil x
    by (auto simp: starargs_or_posonly_def parameters_def same_node_def split: option.splits)
  then show ?thesis
    using assms(1-5) one Nil x by (auto simp: arg_rename_in_place_def)
next
  case (Cons p ps)
  with assms(7) have "same_node nd p" by simp
  with Cons have "starargs_or_posonly (fd_args f) nd"
    by (auto simp: starargs_or_posonly_def)
  then show ?thesis
    using assms(1-5) Cons by (simp add: arg_rename_in_place_def)
qed

text \<open>Witness for C8: \<open>self\<close> of an undecorated method.\<close>

theorem C8_witness:
  "(case create_all_namespaces method_module of
      Inl e \<Rightarrow> False
    | Inr (m, s) \<Rightarrow> arg_rename_in_place s method_self = Inr True)"
proof -
  define s where "s = create_child_namespaces method_module 0
               \<lparr>namespaces = [new_Namespace ModuleNamespace method_module ''''],
                node_namespace = Map.empty\<rparr>"
  have c: "create_all_namespaces method_module = Inr (0, s)"
    by (simp add: create_all_namespaces_def method_module_def s_def)
  have s: "node_namespace s (nid (arg_attributes method_self)) = Some 2"
      "ns_at (namespaces s) 2 = Some (namespaces s ! 2)"
      "node (namespaces s ! 2) = FunctionDefNode method_def"
      "node_namespace s (nid (fd_attributes method_def)) = Some 1"
      "is_ClassNamespace s 1"
    by (simp_all add: s_def method_module_def method_def_def
        method_self_def each_def if_present_def new_child_namespace_def add_child_def
        set_namespace_def new_Namespace_def node_at_def ns_at_def
        is_ClassNamespace_def update_namespace_def)
  have f: "posonlyargs (fd_args method_def) @ args (fd_args method_def) \<noteq> []"
      "same_node method_self ((posonlyargs (fd_args method_def) @ args (fd_args method_def)) ! 0)"
      "distinct (map (\<lambda>p. nid (arg_attributes p)) (parameters (fd_args method_def)))"
      "fd_decorator_list method_def = []"
    by (simp_all add: method_def_def method_self_def same_node_def parameters_def node_at_def)
  from C8_first_positional_parameter [OF s f(1,2,3)] f(4) c show ?thesis by simp
qed

section \<open>Names in the body of a class\<close>

lemma wf_heap_update:
  "wf_heap h \<Longrightarrow> parent_namespace N = parent_namespace (h ! n) \<Longrightarrow> kind N = kind (h ! n) \<Longrightarrow>
     wf_heap (h[n := N])"
  unfolding wf_heap_def
proof (intro allI impI)
  fix i assume a: "\<forall>n<length h. case parent_namespace (h ! n) of
        None \<Rightarrow> kind (h ! n) = ModuleNamespace
      | Some p \<Rightarrow> p < n \<and> kind (h ! n) \<noteq> ModuleNamespace"
    and p: "parent_namespace N = parent_namespace (h ! n)" and k: "kind N = kind (h ! n)"
    and i: "i < length (h[n := N])"
  from i have il: "i < length h" by simp
  have base: "case parent_namespace (h ! i) of
        None \<Rightarrow> kind (h ! i) = ModuleNamespace
      | Some p \<Rightarrow> p < i \<and> kind (h ! i) \<noteq> ModuleNamespace"
    using a il by blast
  have e1: "parent_namespace (h[n := N] ! i) = parent_namespace (h ! i)"
    using il p by (cases "i = n") simp_all
  have e2: "kind (h[n := N] ! i) = kind (h ! i)"
    using il k by (cases "i = n") simp_all
  show "case parent_namespace (h[n := N] ! i) of
        None \<Rightarrow> kind (h[n := N] ! i) = ModuleNamespace
      | Some p \<Rightarrow> p < i \<and> kind (h[n := N] ! i) \<noteq> ModuleNamespace"
    unfolding e1 e2 by (rule base)
qed

text \<open>
  C3: when \<open>create_child_namespaces\<close> visits a name in a class namespace, and the name is
  read (\<open>Load\<close>) or is the target of an augmented assignment (\<open>Store\<close> with parent
  \<open>AugAssign\<close>), the name is added to the nonlocal names of the class namespace, and
  \<open>get_binding\<close> from the class namespace then returns a binding of a namespace that
  encloses the class and is not the class itself. For a name in any other context (an
  ordinary assignment target among them) the namespaces are left as they are. In every
  case the name node gets the class namespace as its namespace.
\<close>

theorem C3_class_scope_names:
  assumes "ns < length (namespaces s)" and "kind (namespaces s ! ns) = ClassNamespace"
    and "wf_heap (namespaces s)"
  shows "(ctx = Load \<or> ctx = Store \<and> parent = ''AugAssign'' \<longrightarrow>
            nonlocal_names (namespaces (create_child_namespaces (Name a ident ctx parent) ns s) ! ns)
              = insert ident (nonlocal_names (namespaces s ! ns))
            \<and> (\<exists>r h'. get_binding bi ident ns
                          (namespaces (create_child_namespaces (Name a ident ctx parent) ns s))
                        = Some (Inr (r, h'))
                  \<and> fst r \<noteq> ns
                  \<and> encloses (namespaces s) ns (fst r)
                  \<and> valid_ref h' ident r))
       \<and> (\<not> (ctx = Load \<or> ctx = Store \<and> parent = ''AugAssign'') \<longrightarrow>
            namespaces (create_child_namespaces (Name a ident ctx parent) ns s) = namespaces s)
       \<and> node_namespace (create_child_namespaces (Name a ident ctx parent) ns s) (nid a) = Some ns"
proof (intro conjI impI)
  let ?s' = "create_child_namespaces (Name a ident ctx parent) ns s"
  let ?h = "namespaces s"
  let ?N' = "(?h ! ns)\<lparr>nonlocal_names := insert ident (nonlocal_names (?h ! ns))\<rparr>"
  have cls: "is_ClassNamespace (set_namespace a ns s) ns"
    using assms(1,2) by (simp add: is_ClassNamespace_def ns_at_def set_namespace_def)
  show "node_namespace ?s' (nid a) = Some ns"
    using cls by (simp add: Let_def set_namespace_def update_namespace_def)
  {
    assume "\<not> (ctx = Load \<or> ctx = Store \<and> parent = ''AugAssign'')"
    then show "namespaces ?s' = ?h"
      using cls by (auto simp: Let_def set_namespace_def)
  }
  assume add: "ctx = Load \<or> ctx = Store \<and> parent = ''AugAssign''"
  have h': "namespaces ?s' = ?h[ns := ?N']"
    using cls add by (auto simp: Let_def set_namespace_def update_namespace_def)
  show "nonlocal_names (namespaces ?s' ! ns) = insert ident (nonlocal_names (?h ! ns))"
    by (subst h') (use assms(1) in simp)
  have wf': "wf_heap (?h[ns := ?N'])"
    by (rule wf_heap_update [OF assms(3)]) simp_all
  have l': "ns < length (?h[ns := ?N'])" using assms(1) by simp
  from get_binding_total [OF wf' l', of bi ident] obtain r hr where
    r: "get_binding bi ident ns (?h[ns := ?N']) = Some (Inr (r, hr))"
       "valid_ref hr ident r" by blast
  have k': "kind (?h[ns := ?N'] ! ns) \<noteq> ModuleNamespace" using assms(1,2) by simp
  have at': "ns_at (?h[ns := ?N']) ns = Some (?h[ns := ?N'] ! ns)"
    using l' by (simp add: ns_at_def)
  have mem: "ident \<in> nonlocal_names (?h[ns := ?N'] ! ns)" using assms(1) by simp
  have enc: "\<And>x y. encloses (?h[ns := ?N']) x y \<Longrightarrow> x < length ?h \<Longrightarrow> encloses ?h x y"
  proof -
    fix x y assume "encloses (?h[ns := ?N']) x y" and "x < length ?h"
    then show "encloses ?h x y"
    proof (induction rule: encloses.induct)
      case (self n)
      show ?case by (rule encloses.self)
    next
      case (parent n p a)
      from parent.prems parent.hyps(1) assms(1) have pp: "parent_namespace (?h ! n) = Some p"
        by (cases "n = ns") simp_all
      with assms(3) parent.prems have "p < n" using wf_heap_parent by blast
      with parent.prems have "p < length ?h" by simp
      with parent.IH pp show ?case by (auto intro: encloses.parent)
    qed
  qed
  have "\<exists>q. q < ns \<and> get_binding bi ident ns (?h[ns := ?N']) = get_binding bi ident q (?h[ns := ?N'])"
  proof (cases "ident \<in> global_names (?h[ns := ?N'] ! ns)")
    case True
    from get_global_namespace_total [OF wf' l'] obtain g where
      g: "get_global_namespace (?h[ns := ?N']) ns = Some (Inr g)" "g \<le> ns"
         "kind (?h[ns := ?N'] ! g) = ModuleNamespace" by blast
    with k' have "g < ns" by (cases "g = ns") auto
    moreover have "get_binding bi ident ns (?h[ns := ?N']) = get_binding bi ident g (?h[ns := ?N'])"
      by (rule get_binding_global_step [OF at' True k' g(1)])
    ultimately show ?thesis by blast
  next
    case False
    from get_nonlocal_namespace_total [OF wf' l' k'] obtain p where
      p: "get_nonlocal_namespace (?h[ns := ?N']) ns = Some (Inr (Some p))" "p < ns" by blast
    have "get_binding bi ident ns (?h[ns := ?N']) = get_binding bi ident p (?h[ns := ?N'])"
      by (rule get_binding_nonlocal_step [OF at' False mem k' p(1)])
    with p show ?thesis by blast
  qed
  then obtain q where q: "q < ns"
    "get_binding bi ident ns (?h[ns := ?N']) = get_binding bi ident q (?h[ns := ?N'])" by blast
  from q(1) l' have ql: "q < length (?h[ns := ?N'])" by simp
  from get_binding_total [OF wf' ql, of bi ident] obtain rq hq where
    rq: "get_binding bi ident q (?h[ns := ?N']) = Some (Inr (rq, hq))" "fst rq \<le> q" by blast
  from get_binding_total [OF wf' l', of bi ident] obtain r2 h2 where
    r2: "get_binding bi ident ns (?h[ns := ?N']) = Some (Inr (r2, h2))"
        "valid_ref h2 ident r2" "encloses (?h[ns := ?N']) ns (fst r2)" by blast
  from q(2) rq r2(1) have "r2 = rq" by simp
  with rq(2) q(1) have ne: "fst r2 \<noteq> ns" by simp
  from enc [OF r2(3) assms(1)] have "encloses ?h ns (fst r2)" .
  with r2 ne show "\<exists>r h'. get_binding bi ident ns (namespaces ?s') = Some (Inr (r, h'))
                  \<and> fst r \<noteq> ns \<and> encloses ?h ns (fst r) \<and> valid_ref h' ident r"
    unfolding h' by blast
qed

text \<open>
  Witness for C3 on \<open>test_class_scope_rebinding_from_parent\<close>: in the class body
  \<^verbatim>\<open>A = A + 1\<close> the read of \<open>A\<close> makes it a nonlocal name that resolves to the module's
  binding; the assignment target alone changes nothing.
\<close>

theorem C3_witness:
  "nonlocal_names (namespaces
       (create_child_namespaces (Name (node_at 8) ''A'' Load ''BinOp'') 1 class_scope_state) ! 1)
     = {''A''}
   \<and> get_binding {} ''A'' 1
         (namespaces (create_child_namespaces (Name (node_at 8) ''A'' Load ''BinOp'') 1
            class_scope_state))
       = Some (Inr ((0, 0),
           namespaces (create_child_namespaces (Name (node_at 8) ''A'' Load ''BinOp'') 1
              class_scope_state)))
   \<and> namespaces
         (create_child_namespaces (Name (node_at 7) ''A'' Store ''Assign'') 1 class_scope_state)
       = class_scope_heap"
proof -
  have l: "1 < length (namespaces class_scope_state)"
    and k: "kind (namespaces class_scope_state ! 1) = ClassNamespace"
    by (simp_all add: class_scope_state_def class_scope_heap_def new_Namespace_def)
  have wf: "wf_heap (namespaces class_scope_state)"
    by (simp add: wf_heap_def class_scope_state_def class_scope_heap_def new_Namespace_def
          less_Suc_eq eval_nat_numeral)
  have e: "nonlocal_names (namespaces class_scope_state ! 1) = {}"
    and h: "namespaces class_scope_state = class_scope_heap"
    by (simp_all add: class_scope_state_def class_scope_heap_def new_Namespace_def)
  from C3_class_scope_names [OF l k wf, of Load "''BinOp''" "node_at 8" "''A''" "{}"] e
  have 1: "nonlocal_names (namespaces
       (create_child_namespaces (Name (node_at 8) ''A'' Load ''BinOp'') 1 class_scope_state) ! 1)
     = {''A''}" by simp
  from C3_class_scope_names [OF l k wf, of Store "''Assign''" "node_at 7" "''A''" "{}"] h
  have 3: "namespaces
         (create_child_namespaces (Name (node_at 7) ''A'' Store ''Assign'') 1 class_scope_state)
       = class_scope_heap" by simp
  have 2: "get_binding {} ''A'' 1
         (namespaces (create_child_namespaces (Name (node_at 8) ''A'' Load ''BinOp'') 1
            class_scope_state))
       = Some (Inr ((0, 0),
           namespaces (create_child_namespaces (Name (node_at 8) ''A'' Load ''BinOp'') 1
              class_scope_state)))"
    by (simp add: get_binding.simps get_nonlocal_namespace.simps ns_at_def class_scope_state_def
          class_scope_heap_def new_Namespace_def ref_binding_def new_NameBinding_def
          is_ClassNamespace_def set_namespace_def update_namespace_def)
  from 1 2 3 show ?thesis by simp
qed

section \<open>What a visit changes\<close>

text \<open>
  A visit of a tree assigns the attribute \<open>namespace\<close> of the nodes of that tree and of no
  other node.
\<close>

lemma set_namespace_other [simp]:
  "k \<noteq> nid a \<Longrightarrow> node_namespace (set_namespace a ns s) k = node_namespace s k"
  by (simp add: set_namespace_def)

lemma set_namespace_same [simp]:
  "node_namespace (set_namespace a ns s) (nid a) = Some ns"
  by (simp add: set_namespace_def)

lemma set_namespace_namespaces [simp]:
  "namespaces (set_namespace a ns s) = namespaces s"
  by (simp add: set_namespace_def)

lemma update_namespace_owner [simp]:
  "node_namespace (update_namespace n f s) = node_namespace s"
  by (simp add: update_namespace_def)

lemma new_child_namespace_owner [simp]:
  "node_namespace (snd (new_child_namespace k nd nm p s)) = node_namespace s"
  by (simp add: new_child_namespace_def Let_def)

lemma each_map_frame:
  "(\<And>x s. x \<in> set xs \<Longrightarrow> node_namespace (f x s) k = node_namespace s k) \<Longrightarrow>
     node_namespace (each (map f xs) s) k = node_namespace s k"
  unfolding each_def by (induction xs arbitrary: s) simp_all

lemma each_append: "each (xs @ ys) s = each ys (each xs s)"
  by (simp add: each_def)

lemma if_present_frame:
  "(\<And>x s. x \<in> set_option xo \<Longrightarrow> node_namespace (f x s) k = node_namespace s k) \<Longrightarrow>
     node_namespace (if_present (map_option f xo) s) k = node_namespace s k"
  by (cases xo) (simp_all add: if_present_def)

lemma each_if_present_frame:
  "(\<And>x y s. x \<in> set xs \<Longrightarrow> y \<in> set_option x \<Longrightarrow> node_namespace (f y s) k = node_namespace s k) \<Longrightarrow>
     node_namespace (each (map if_present (map (map_option f) xs)) s) k = node_namespace s k"
proof (induction xs arbitrary: s)
  case Nil
  then show ?case by (simp add: each_def)
next
  case (Cons x xs)
  have "each (map if_present (map (map_option f) (x # xs))) s
      = each (map if_present (map (map_option f) xs)) (if_present (map_option f x) s)"
    by (simp add: each_def)
  moreover have "node_namespace (if_present (map_option f x) s) k = node_namespace s k"
    by (rule if_present_frame) (rule Cons.prems [of x], simp_all)
  ultimately show ?case using Cons.IH Cons.prems by simp
qed

lemma each_generator_frame:
  "(\<And>g it s. g \<in> set gs \<Longrightarrow> node_namespace (f g it s) k = node_namespace s k) \<Longrightarrow>
     node_namespace (each_generator (map f gs) p c s) k = node_namespace s k"
proof (cases gs)
  case Nil
  then show ?thesis by (simp add: each_generator_def)
next
  case (Cons g gs')
  assume a: "\<And>g it s. g \<in> set gs \<Longrightarrow> node_namespace (f g it s) k = node_namespace s k"
  have "each_generator (map f gs) p c s = each (map (\<lambda>g. f g c) gs') (f g p s)"
    using Cons by (simp add: each_generator_def comp_def)
  moreover have "node_namespace (each (map (\<lambda>g. f g c) gs') (f g p s)) k = node_namespace (f g p s) k"
    by (rule each_map_frame) (simp add: a Cons)
  ultimately show ?thesis using a Cons by simp
qed

lemma option_ids_simps [simp]: "option_ids None = []" "option_ids (Some l) = l"
  by (simp_all add: option_ids_def)

lemma option_ids_map [simp]:
  "k \<in> set (option_ids (map_option f xo)) \<longleftrightarrow> (\<exists>x \<in> set_option xo. k \<in> set (f x))"
  by (cases xo) (simp_all add: option_ids_def)

lemma owner_frame:
  "(\<forall>k ns s. k \<notin> set (node_ids n) \<longrightarrow>
      node_namespace (create_child_namespaces n ns s) k = node_namespace s k)
 \<and> (\<forall>k ns s. k \<notin> set (functiondef_ids fd) \<longrightarrow>
      node_namespace (create_functiondef_namespace fd ns s) k = node_namespace s k)
 \<and> (\<forall>k ns s. k \<notin> set (lambda_ids l) \<longrightarrow>
      node_namespace (create_lambda_namespace l ns s) k = node_namespace s k)
 \<and> (\<forall>k ns s. k \<notin> set (classdef_ids cd) \<longrightarrow>
      node_namespace (create_class_namespace cd ns s) k = node_namespace s k)
 \<and> (\<forall>k ns s. k \<notin> set (comp_ids c) \<longrightarrow>
      node_namespace (create_comprehension_namespace c ns s) k = node_namespace s k)
 \<and> (\<forall>k p f s. k \<notin> set (arguments_ids ar) \<longrightarrow>
      node_namespace (assign_arguments_to_namespace ar p f s) k = node_namespace s k)
 \<and> (\<forall>k ns s. k \<notin> set (arg_ids a) \<longrightarrow>
      node_namespace (annotation_namespaces a ns s) k = node_namespace s k)
 \<and> (\<forall>k it cn s. k \<notin> set (comprehension_ids g) \<longrightarrow>
      node_namespace (comprehension_generator g it cn s) k = node_namespace s k)"
  apply (rule node_functiondef_lambda_classdef_comp_arguments_arg_comprehension.induct
      [where ?P1.0 = "\<lambda>n. \<forall>k ns s. k \<notin> set (node_ids n) \<longrightarrow>
          node_namespace (create_child_namespaces n ns s) k = node_namespace s k"
        and ?P2.0 = "\<lambda>fd. \<forall>k ns s. k \<notin> set (functiondef_ids fd) \<longrightarrow>
          node_namespace (create_functiondef_namespace fd ns s) k = node_namespace s k"
        and ?P3.0 = "\<lambda>l. \<forall>k ns s. k \<notin> set (lambda_ids l) \<longrightarrow>
          node_namespace (create_lambda_namespace l ns s) k = node_namespace s k"
        and ?P4.0 = "\<lambda>cd. \<forall>k ns s. k \<notin> set (classdef_ids cd) \<longrightarrow>
          node_namespace (create_class_namespace cd ns s) k = node_namespace s k"
        and ?P5.0 = "\<lambda>c. \<forall>k ns s. k \<notin> set (comp_ids c) \<longrightarrow>
          node_namespace (create_comprehension_namespace c ns s) k = node_namespace s k"
        and ?P6.0 = "\<lambda>ar. \<forall>k p f s. k \<notin> set (arguments_ids ar) \<longrightarrow>
          node_namespace (assign_arguments_to_namespace ar p f s) k = node_namespace s k"
        and ?P7.0 = "\<lambda>a. \<forall>k ns s. k \<notin> set (arg_ids a) \<longrightarrow>
          node_namespace (annotation_namespaces a ns s) k = node_namespace s k"
        and ?P8.0 = "\<lambda>g. \<forall>k it cn s. k \<notin> set (comprehension_ids g) \<longrightarrow>
          node_namespace (comprehension_generator g it cn s) k = node_namespace s k"])
  subgoal by (simp add: Let_def)
  subgoal by simp
  subgoal by simp
  subgoal by simp
  subgoal by (simp add: each_map_frame)
  subgoal by simp
  subgoal by simp
  subgoal by simp
  subgoal by simp
  subgoal premises prems for x1 x2 x3 x4 x5 x6 x7 x8
  proof (intro allI impI)
    fix k ns s assume k: "k \<notin> set (functiondef_ids (FunctionDef x1 x2 x3 x4 x5 x6 x7 x8))"
    have a: "\<And>p f s. node_namespace (assign_arguments_to_namespace x4 p f s) k = node_namespace s k"
      using prems(1) k by simp
    have b: "\<And>x ns s. x \<in> set x5 \<Longrightarrow> node_namespace (create_child_namespaces x ns s) k = node_namespace s k"
      using prems(2) k by simp
    have c: "\<And>x ns s. x \<in> set x6 \<Longrightarrow> node_namespace (create_child_namespaces x ns s) k = node_namespace s k"
      using prems(3) k by simp
    have d: "\<And>x ns s. x \<in> set_option x7 \<Longrightarrow> node_namespace (create_child_namespaces x ns s) k = node_namespace s k"
      using prems(4) k by simp
    have e: "\<And>x ns s. x \<in> set x8 \<Longrightarrow> node_namespace (create_child_namespaces x ns s) k = node_namespace s k"
      using prems(5) k by simp
    show "node_namespace (create_functiondef_namespace (FunctionDef x1 x2 x3 x4 x5 x6 x7 x8) ns s) k
        = node_namespace s k"
      apply (simp only: create_functiondef_namespace.simps Let_def split_beta)
      apply (subst if_present_frame, erule d)
      apply (subst each_map_frame, erule c)
      apply (subst each_map_frame, erule b)
      apply (subst a)
      apply (cases "x8 = []")
       apply simp
      apply simp
      apply (subst each_map_frame, erule e)
      apply simp
      done
  qed
  subgoal premises prems for x1 x2 x3
  proof (intro allI impI)
    fix k ns s assume k: "k \<notin> set (lambda_ids (Lambda x1 x2 x3))"
    have a: "\<And>p f s. node_namespace (assign_arguments_to_namespace x2 p f s) k = node_namespace s k"
      using prems(1) k by simp
    have b: "\<And>ns s. node_namespace (create_child_namespaces x3 ns s) k = node_namespace s k"
      using prems(2) k by simp
    show "node_namespace (create_lambda_namespace (Lambda x1 x2 x3) ns s) k = node_namespace s k"
      by (simp add: split_beta a b)
  qed
  subgoal premises prems for x1 x2 x3 x4 x5 x6 x7
  proof (intro allI impI)
    fix k ns s assume k: "k \<notin> set (classdef_ids (ClassDef x1 x2 x3 x4 x5 x6 x7))"
    have a: "\<And>x ns s. x \<in> set x3 \<Longrightarrow> node_namespace (create_child_namespaces x ns s) k = node_namespace s k"
      using prems(1) k by simp
    have b: "\<And>x ns s. x \<in> set x4 \<Longrightarrow> node_namespace (create_child_namespaces x ns s) k = node_namespace s k"
      using prems(2) k by simp
    have c: "\<And>x ns s. x \<in> set x5 \<Longrightarrow> node_namespace (create_child_namespaces x ns s) k = node_namespace s k"
      using prems(3) k by simp
    have d: "\<And>x ns s. x \<in> set x6 \<Longrightarrow> node_namespace (create_child_namespaces x ns s) k = node_namespace s k"
      using prems(4) k by simp
    have e: "\<And>x ns s. x \<in> set x7 \<Longrightarrow> node_namespace (create_child_namespaces x ns s) k = node_namespace s k"
      using prems(5) k by simp
    show "node_namespace (create_class_namespace (ClassDef x1 x2 x3 x4 x5 x6 x7) ns s) k
        = node_namespace s k"
      by (simp add: Let_def split_beta each_map_frame a b c d e)
  qed
  subgoal premises prems for x1 x2 x3
  proof (intro allI impI)
    fix k ns s assume k: "k \<notin> set (comp_ids (GeneratorExp x1 x2 x3))"
    have a: "\<And>ns s. node_namespace (create_child_namespaces x2 ns s) k = node_namespace s k"
      using prems(1) k by simp
    have b: "\<And>g it cn s. g \<in> set x3 \<Longrightarrow>
        node_namespace (comprehension_generator g it cn s) k = node_namespace s k"
      using prems(2) k by simp
    show "node_namespace (create_comprehension_namespace (GeneratorExp x1 x2 x3) ns s) k
        = node_namespace s k"
      by (simp add: split_beta each_generator_frame a b)
  qed
  subgoal premises prems for x1 x2 x3
  proof (intro allI impI)
    fix k ns s assume k: "k \<notin> set (comp_ids (SetComp x1 x2 x3))"
    have a: "\<And>ns s. node_namespace (create_child_namespaces x2 ns s) k = node_namespace s k"
      using prems(1) k by simp
    have b: "\<And>g it cn s. g \<in> set x3 \<Longrightarrow>
        node_namespace (comprehension_generator g it cn s) k = node_namespace s k"
      using prems(2) k by simp
    show "node_namespace (create_comprehension_namespace (SetComp x1 x2 x3) ns s) k
        = node_namespace s k"
      by (simp add: split_beta each_generator_frame a b)
  qed
  subgoal premises prems for x1 x2 x3
  proof (intro allI impI)
    fix k ns s assume k: "k \<notin> set (comp_ids (ListComp x1 x2 x3))"
    have a: "\<And>ns s. node_namespace (create_child_namespaces x2 ns s) k = node_namespace s k"
      using prems(1) k by simp
    have b: "\<And>g it cn s. g \<in> set x3 \<Longrightarrow>
        node_namespace (comprehension_generator g it cn s) k = node_namespace s k"
      using prems(2) k by simp
    show "node_namespace (create_comprehension_namespace (ListComp x1 x2 x3) ns s) k
        = node_namespace s k"
      by (simp add: split_beta each_generator_frame a b)
  qed
  subgoal premises prems for x1 x2 x3 x4
  proof (intro allI impI)
    fix k ns s assume k: "k \<notin> set (comp_ids (DictComp x1 x2 x3 x4))"
    have a: "\<And>ns s. node_namespace (create_child_namespaces x2 ns s) k = node_namespace s k"
      using prems(1) k by simp
    have a': "\<And>ns s. node_namespace (create_child_namespaces x3 ns s) k = node_namespace s k"
      using prems(2) k by simp
    have b: "\<And>g it cn s. g \<in> set x4 \<Longrightarrow>
        node_namespace (comprehension_generator g it cn s) k = node_namespace s k"
      using prems(3) k by simp
    show "node_namespace (create_comprehension_namespace (DictComp x1 x2 x3 x4) ns s) k
        = node_namespace s k"
      by (simp add: split_beta each_generator_frame a a' b)
  qed
  subgoal premises prems for x1 x2 x3 x4 x5 x6 x7 x8
  proof (intro allI impI)
    fix k p f s assume k: "k \<notin> set (arguments_ids (Arguments x1 x2 x3 x4 x5 x6 x7 x8))"
    have n: "k \<noteq> nid x1" using k by simp
    have a: "\<And>x ns s. x \<in> set x2 \<Longrightarrow> node_namespace (annotation_namespaces x ns s) k = node_namespace s k"
      using prems(1) k by simp
    have b: "\<And>x ns s. x \<in> set x3 \<Longrightarrow> node_namespace (annotation_namespaces x ns s) k = node_namespace s k"
      using prems(2) k by simp
    have c: "\<And>x ns s. x \<in> set_option x4 \<Longrightarrow> node_namespace (annotation_namespaces x ns s) k = node_namespace s k"
      using prems(3) k by simp
    have d: "\<And>x ns s. x \<in> set x5 \<Longrightarrow> node_namespace (annotation_namespaces x ns s) k = node_namespace s k"
      using prems(4) k by simp
    have e: "\<And>x y ns s. x \<in> set x6 \<Longrightarrow> y \<in> set_option x \<Longrightarrow>
        node_namespace (create_child_namespaces y ns s) k = node_namespace s k"
      using prems(5) k by simp
    have g: "\<And>x ns s. x \<in> set_option x7 \<Longrightarrow> node_namespace (annotation_namespaces x ns s) k = node_namespace s k"
      using prems(6) k by simp
    have h: "\<And>x ns s. x \<in> set x8 \<Longrightarrow> node_namespace (create_child_namespaces x ns s) k = node_namespace s k"
      using prems(7) k by simp
    have i2: "\<And>x. x \<in> set x2 \<Longrightarrow> k \<noteq> nid (arg_attributes x)"
      using k by (case_tac x) auto
    have i3: "\<And>x. x \<in> set x3 \<Longrightarrow> k \<noteq> nid (arg_attributes x)"
      using k by (case_tac x) auto
    have i5: "\<And>x. x \<in> set x5 \<Longrightarrow> k \<noteq> nid (arg_attributes x)"
      using k by (case_tac x) auto
    have i4: "\<And>x. x \<in> set_option x4 \<Longrightarrow> k \<noteq> nid (arg_attributes x)"
      using k by (case_tac x) auto
    have i7: "\<And>x. x \<in> set_option x7 \<Longrightarrow> k \<noteq> nid (arg_attributes x)"
      using k by (case_tac x) auto
    show "node_namespace (assign_arguments_to_namespace (Arguments x1 x2 x3 x4 x5 x6 x7 x8) p f s) k
        = node_namespace s k"
      apply (simp only: assign_arguments_to_namespace.simps Let_def each_append)
      apply (subst if_present_frame, simp add: g i7)
      apply (subst if_present_frame, simp add: c i4)
      apply (subst each_map_frame, erule h)
      apply (subst each_if_present_frame, erule (1) e)
      apply (subst each_map_frame, simp add: d i5)
      apply (subst each_map_frame, simp add: b i3)
      apply (subst each_map_frame, simp add: a i2)
      apply (simp add: n)
      done
  qed
  subgoal premises prems for x1 x2 x3
  proof (intro allI impI)
    fix k ns s assume k: "k \<notin> set (arg_ids (Arg x1 x2 x3))"
    have a: "\<And>x ns s. x \<in> set_option x3 \<Longrightarrow> node_namespace (create_child_namespaces x ns s) k = node_namespace s k"
      using prems(1) k by simp
    show "node_namespace (annotation_namespaces (Arg x1 x2 x3) ns s) k = node_namespace s k"
      by (simp only: annotation_namespaces.simps) (rule if_present_frame, erule a)
  qed
  subgoal premises prems for x1 x2 x3 x4 x5
  proof (intro allI impI)
    fix k it cn s assume k: "k \<notin> set (comprehension_ids (Comprehension x1 x2 x3 x4 x5))"
    have n: "k \<noteq> nid x1" using k by simp
    have a: "\<And>ns s. node_namespace (create_child_namespaces x2 ns s) k = node_namespace s k"
      using prems(1) k by simp
    have b: "\<And>ns s. node_namespace (create_child_namespaces x3 ns s) k = node_namespace s k"
      using prems(2) k by simp
    have c: "\<And>x ns s. x \<in> set x4 \<Longrightarrow> node_namespace (create_child_namespaces x ns s) k = node_namespace s k"
      using prems(3) k by simp
    show "node_namespace (comprehension_generator (Comprehension x1 x2 x3 x4 x5) it cn s) k
        = node_namespace s k"
      by (simp add: Let_def each_map_frame n a b c)
  qed
  done

section \<open>The arena only grows\<close>

text \<open>
  No step of the pass removes a namespace or changes the kind, the name, the introducing
  node or the parent of one that exists, and a new namespace is a child of one that
  exists: a well-formed tree of namespaces stays one.
\<close>

lemma heap_extends_refl: "heap_extends h h"
  by (simp add: heap_extends_def)

lemma heap_extends_trans: "heap_extends a b \<Longrightarrow> heap_extends b c \<Longrightarrow> heap_extends a c"
  unfolding heap_extends_def by auto

lemma grows_refl: "grows s s"
  by (simp add: grows_def heap_extends_refl)

lemma grows_trans: "grows a b \<Longrightarrow> grows b c \<Longrightarrow> grows a c"
  unfolding grows_def by (auto intro: heap_extends_trans)

lemma grows_length: "grows s s' \<Longrightarrow> n < length (namespaces s) \<Longrightarrow> n < length (namespaces s')"
  by (simp add: grows_def heap_extends_def)

lemma grows_set_namespace: "grows s (set_namespace a ns s)"
  by (simp add: grows_def heap_extends_refl)

lemma heap_extends_update:
  "kind N = kind (h ! n) \<Longrightarrow> name N = name (h ! n) \<Longrightarrow> node N = node (h ! n) \<Longrightarrow>
     parent_namespace N = parent_namespace (h ! n) \<Longrightarrow> heap_extends h (h[n := N])"
  unfolding heap_extends_def by (cases "n < length h") (auto simp: nth_list_update)

lemma grows_update_names:
  assumes "\<And>N. kind (f N) = kind N \<and> name (f N) = name N \<and> node (f N) = node N
              \<and> parent_namespace (f N) = parent_namespace N"
  shows "grows s (update_namespace n f s)"
  unfolding grows_def update_namespace_def
  by (simp add: heap_extends_update wf_heap_update assms)

lemma wf_heap_new_child:
  assumes "wf_heap h" and "p < length h" and "k \<noteq> ModuleNamespace"
  shows "wf_heap (add_child p (length h) (h @ [new_Namespace k nd nm]))"
proof -
  let ?c = "length h"
  let ?h1 = "(h @ [new_Namespace k nd nm])[?c := (new_Namespace k nd nm)\<lparr>parent_namespace := Some p\<rparr>]"
  have e: "add_child p ?c (h @ [new_Namespace k nd nm])
      = ?h1[p := (?h1 ! p)\<lparr>children := children (?h1 ! p) @ [?c]\<rparr>]"
    by (simp add: add_child_def Let_def)
  have h1: "?h1 = h @ [(new_Namespace k nd nm)\<lparr>parent_namespace := Some p\<rparr>]"
    by simp
  have wf1: "wf_heap ?h1"
    unfolding h1 wf_heap_def
  proof (intro allI impI)
    fix i assume "i < length (h @ [(new_Namespace k nd nm)\<lparr>parent_namespace := Some p\<rparr>])"
    then consider "i < length h" | "i = length h" by fastforce
    then show "case parent_namespace ((h @ [(new_Namespace k nd nm)\<lparr>parent_namespace := Some p\<rparr>]) ! i) of
        None \<Rightarrow> kind ((h @ [(new_Namespace k nd nm)\<lparr>parent_namespace := Some p\<rparr>]) ! i) = ModuleNamespace
      | Some q \<Rightarrow> q < i \<and> kind ((h @ [(new_Namespace k nd nm)\<lparr>parent_namespace := Some p\<rparr>]) ! i) \<noteq> ModuleNamespace"
    proof cases
      case 1
      then have e: "(h @ [(new_Namespace k nd nm)\<lparr>parent_namespace := Some p\<rparr>]) ! i = h ! i"
        by (simp add: nth_append)
      show ?thesis unfolding e using assms(1) 1 by (simp add: wf_heap_def)
    next
      case 2
      with assms(2,3) show ?thesis by (simp add: nth_append new_Namespace_def)
    qed
  qed
  show ?thesis unfolding e by (rule wf_heap_update [OF wf1]) simp_all
qed

lemma new_child_namespace_fst [simp]:
  "fst (new_child_namespace k nd nm p s) = length (namespaces s)"
  by (simp add: new_child_namespace_def Let_def)

lemma new_child_namespace_length [simp]:
  "length (namespaces (snd (new_child_namespace k nd nm p s))) = Suc (length (namespaces s))"
  by (simp add: new_child_namespace_def Let_def add_child_def)

lemma new_child_namespace_entry:
  assumes "p < length (namespaces s)"
  shows "kind (namespaces (snd (new_child_namespace k nd nm p s)) ! length (namespaces s)) = k"
    and "node (namespaces (snd (new_child_namespace k nd nm p s)) ! length (namespaces s)) = nd"
    and "name (namespaces (snd (new_child_namespace k nd nm p s)) ! length (namespaces s)) = nm"
    and "parent_namespace (namespaces (snd (new_child_namespace k nd nm p s)) ! length (namespaces s))
           = Some p"
  using assms
  by (simp_all add: new_child_namespace_def Let_def add_child_def nth_list_update nth_append
        new_Namespace_def)

lemma grows_new_child:
  assumes "p < length (namespaces s)" and "k \<noteq> ModuleNamespace"
  shows "grows s (snd (new_child_namespace k nd nm p s))"
proof -
  have "heap_extends (namespaces s) (namespaces (snd (new_child_namespace k nd nm p s)))"
    using assms(1)
    by (auto simp: heap_extends_def new_child_namespace_def Let_def add_child_def
          nth_list_update nth_append)
  moreover have "wf_heap (namespaces s) \<Longrightarrow>
      wf_heap (namespaces (snd (new_child_namespace k nd nm p s)))"
    using wf_heap_new_child [OF _ assms] by (simp add: new_child_namespace_def Let_def)
  ultimately show ?thesis by (simp add: grows_def)
qed

lemma each_map_grows:
  assumes "\<And>s s'. Pre s \<Longrightarrow> grows s s' \<Longrightarrow> Pre s'"
    and "\<And>x s. x \<in> set xs \<Longrightarrow> Pre s \<Longrightarrow> grows s (f x s)"
    and "Pre s"
  shows "grows s (each (map f xs) s)"
  using assms(2,3)
proof (induction xs arbitrary: s)
  case Nil
  then show ?case by (simp add: each_def grows_refl)
next
  case (Cons x xs)
  have 1: "grows s (f x s)" using Cons.prems by simp
  have 2: "Pre (f x s)" by (rule assms(1) [OF Cons.prems(2) 1])
  have 3: "grows (f x s) (each (map f xs) (f x s))"
    by (rule Cons.IH [OF _ 2]) (simp add: Cons.prems(1))
  have "each (map f (x # xs)) s = each (map f xs) (f x s)" by (simp add: each_def)
  with grows_trans [OF 1 3] show ?case by simp
qed

lemma if_present_grows:
  assumes "\<And>x. x \<in> set_option xo \<Longrightarrow> grows s (f x s)"
  shows "grows s (if_present (map_option f xo) s)"
  using assms by (cases xo) (simp_all add: if_present_def grows_refl)

lemma each_if_present_grows:
  assumes "\<And>s s'. Pre s \<Longrightarrow> grows s s' \<Longrightarrow> Pre s'"
    and "\<And>x y s. x \<in> set xs \<Longrightarrow> y \<in> set_option x \<Longrightarrow> Pre s \<Longrightarrow> grows s (f y s)"
    and "Pre s"
  shows "grows s (each (map if_present (map (map_option f) xs)) s)"
proof -
  have e: "map if_present (map (map_option f) xs) = map (\<lambda>x. if_present (map_option f x)) xs"
    by simp
  show ?thesis
    unfolding e
  proof (rule each_map_grows [where Pre = Pre, OF assms(1) _ assms(3)])
    fix x s assume "x \<in> set xs" "Pre s"
    then show "grows s (if_present (map_option f x) s)"
      by (intro if_present_grows) (rule assms(2))
  qed
qed

lemma each_generator_grows:
  assumes "\<And>g it s. g \<in> set gs \<Longrightarrow> it < length (namespaces s) \<Longrightarrow> c < length (namespaces s) \<Longrightarrow>
             grows s (f g it s)"
    and "p < length (namespaces s)" and "c < length (namespaces s)"
  shows "grows s (each_generator (map f gs) p c s)"
proof (cases gs)
  case Nil
  then show ?thesis by (simp add: each_generator_def grows_refl)
next
  case (Cons g gs')
  have e: "each_generator (map f gs) p c s = each (map (\<lambda>g. f g c) gs') (f g p s)"
    using Cons by (simp add: each_generator_def comp_def)
  have 1: "grows s (f g p s)" using assms Cons by simp
  have 2: "grows (f g p s) (each (map (\<lambda>g. f g c) gs') (f g p s))"
  proof (rule each_map_grows [where Pre = "\<lambda>s. c < length (namespaces s)"])
    show "c < length (namespaces (f g p s))" by (rule grows_length [OF 1 assms(3)])
  next
    fix s s' :: state assume "c < length (namespaces s)" "grows s s'"
    then show "c < length (namespaces s')" by (simp add: grows_length)
  next
    fix x and s :: state assume "x \<in> set gs'" "c < length (namespaces s)"
    then show "grows s (f x c s)" using assms(1) Cons by simp
  qed
  show ?thesis unfolding e by (rule grows_trans [OF 1 2])
qed

lemma pre_length: "\<And>s s'. n < length (namespaces s) \<Longrightarrow> grows s s' \<Longrightarrow> n < length (namespaces s')"
  by (simp add: grows_length)

lemma pre_length2:
  "\<And>s s'. p < length (namespaces s) \<and> f < length (namespaces s) \<Longrightarrow> grows s s' \<Longrightarrow>
     p < length (namespaces s') \<and> f < length (namespaces s')"
  by (simp add: grows_length)

lemma each_visits_grow:
  assumes "\<And>x ns s. x \<in> set xs \<Longrightarrow> ns < length (namespaces s) \<Longrightarrow> grows s (f x ns s)"
    and "ns < length (namespaces s)"
  shows "grows s (each (map (\<lambda>x. f x ns) xs) s)"
  by (rule each_map_grows [where Pre = "\<lambda>s. ns < length (namespaces s)"])
     (simp_all add: grows_length assms)

text \<open>The start of a definition: the new namespaces and the visit of the type parameters.\<close>

lemma definition_header_grows:
  fixes s :: state and nd :: node and nm :: string and k :: namespace_kind and ns :: nat
    and tps :: "'a list" and f :: "'a \<Rightarrow> nat \<Rightarrow> state \<Rightarrow> state"
  assumes ns: "ns < length (namespaces s)" and k: "k \<noteq> ModuleNamespace"
    and ih: "\<And>x ns s. x \<in> set tps \<Longrightarrow> ns < length (namespaces s) \<Longrightarrow> grows s (f x ns s)"
  defines "pair \<equiv>
     (if tps \<noteq> [] then
        (case new_child_namespace AnnotationNamespace nd nm ns s of
           (annotation_ns, sa) \<Rightarrow>
             (case new_child_namespace k nd nm annotation_ns sa of
                (function_ns, sb) \<Rightarrow>
                  (function_ns, each (map (\<lambda>type_param. f type_param annotation_ns) tps) sb)))
      else new_child_namespace k nd nm ns s)"
  shows "grows s (snd pair)" and "fst pair < length (namespaces (snd pair))"
proof -
  show "grows s (snd pair)"
  proof (cases "tps = []")
    case True
    then show ?thesis using grows_new_child [OF ns k] by (simp add: pair_def)
  next
    case False
    let ?sa = "snd (new_child_namespace AnnotationNamespace nd nm ns s)"
    let ?an = "length (namespaces s)"
    let ?sb = "snd (new_child_namespace k nd nm ?an ?sa)"
    have 1: "grows s ?sa" by (rule grows_new_child [OF ns]) simp
    have an: "?an < length (namespaces ?sa)" by simp
    have 2: "grows ?sa ?sb" by (rule grows_new_child [OF an k])
    have an': "?an < length (namespaces ?sb)" by simp
    have 3: "grows ?sb (each (map (\<lambda>type_param. f type_param ?an) tps) ?sb)"
      by (rule each_visits_grow [OF ih an'])
    have "snd pair = each (map (\<lambda>type_param. f type_param ?an) tps) ?sb"
      using False by (simp add: pair_def split_beta)
    with grows_trans [OF 1 grows_trans [OF 2 3]] show ?thesis by simp
  qed
  show "fst pair < length (namespaces (snd pair))"
  proof (cases "tps = []")
    case True
    then show ?thesis by (simp add: pair_def)
  next
    case False
    let ?sa = "snd (new_child_namespace AnnotationNamespace nd nm ns s)"
    let ?an = "length (namespaces s)"
    let ?sb = "snd (new_child_namespace k nd nm ?an ?sa)"
    have an': "?an < length (namespaces ?sb)" by simp
    have fn: "Suc ?an < length (namespaces ?sb)" by simp
    have 3: "grows ?sb (each (map (\<lambda>type_param. f type_param ?an) tps) ?sb)"
      by (rule each_visits_grow [OF ih an'])
    have e: "snd pair = each (map (\<lambda>type_param. f type_param ?an) tps) ?sb"
      "fst pair = Suc ?an"
      using False by (simp_all add: pair_def split_beta)
    show ?thesis unfolding e by (rule grows_length [OF 3 fn])
  qed
qed

lemma grows_set_namespace_left [simp]: "grows (set_namespace a ns s) s' = grows s s'"
  by (simp add: grows_def)

lemma grows_set_namespace_right [simp]: "grows s (set_namespace a ns s') = grows s s'"
  by (simp add: grows_def)

lemma grows_update_set:
  assumes "\<And>N. kind (f N) = kind N \<and> name (f N) = name N \<and> node (f N) = node N
              \<and> parent_namespace (f N) = parent_namespace N"
  shows "grows s (update_namespace n f (set_namespace a ns s))"
  using grows_update_names [of f "set_namespace a ns s" n] assms by simp

lemma wrapper_grows:
  assumes "\<forall>ns s. ns < length (namespaces s) \<longrightarrow> grows s (F ns s)"
  shows "\<forall>ns s. ns < length (namespaces s) \<longrightarrow> grows s (F ns (set_namespace a ns s))"
proof (intro allI impI)
  fix ns and s :: state assume "ns < length (namespaces s)"
  then have "ns < length (namespaces (set_namespace a ns s))" by simp
  with assms have "grows (set_namespace a ns s) (F ns (set_namespace a ns s))" by blast
  then show "grows s (F ns (set_namespace a ns s))" by simp
qed

lemma builder_grows:
  "(\<forall>ns s. ns < length (namespaces s) \<longrightarrow> grows s (create_child_namespaces n ns s))
 \<and> (\<forall>ns s. ns < length (namespaces s) \<longrightarrow> grows s (create_functiondef_namespace fd ns s))
 \<and> (\<forall>ns s. ns < length (namespaces s) \<longrightarrow> grows s (create_lambda_namespace l ns s))
 \<and> (\<forall>ns s. ns < length (namespaces s) \<longrightarrow> grows s (create_class_namespace cd ns s))
 \<and> (\<forall>ns s. ns < length (namespaces s) \<longrightarrow> grows s (create_comprehension_namespace c ns s))
 \<and> (\<forall>p f s. p < length (namespaces s) \<and> f < length (namespaces s) \<longrightarrow>
        grows s (assign_arguments_to_namespace ar p f s))
 \<and> (\<forall>ns s. ns < length (namespaces s) \<longrightarrow> grows s (annotation_namespaces a ns s))
 \<and> (\<forall>it cn s. it < length (namespaces s) \<and> cn < length (namespaces s) \<longrightarrow>
        grows s (comprehension_generator g it cn s))"
  apply (rule node_functiondef_lambda_classdef_comp_arguments_arg_comprehension.induct
      [where ?P1.0 = "\<lambda>n. \<forall>ns s. ns < length (namespaces s) \<longrightarrow>
          grows s (create_child_namespaces n ns s)"
        and ?P2.0 = "\<lambda>fd. \<forall>ns s. ns < length (namespaces s) \<longrightarrow>
          grows s (create_functiondef_namespace fd ns s)"
        and ?P3.0 = "\<lambda>l. \<forall>ns s. ns < length (namespaces s) \<longrightarrow>
          grows s (create_lambda_namespace l ns s)"
        and ?P4.0 = "\<lambda>cd. \<forall>ns s. ns < length (namespaces s) \<longrightarrow>
          grows s (create_class_namespace cd ns s)"
        and ?P5.0 = "\<lambda>c. \<forall>ns s. ns < length (namespaces s) \<longrightarrow>
          grows s (create_comprehension_namespace c ns s)"
        and ?P6.0 = "\<lambda>ar. \<forall>p f s. p < length (namespaces s) \<and> f < length (namespaces s) \<longrightarrow>
          grows s (assign_arguments_to_namespace ar p f s)"
        and ?P7.0 = "\<lambda>a. \<forall>ns s. ns < length (namespaces s) \<longrightarrow>
          grows s (annotation_namespaces a ns s)"
        and ?P8.0 = "\<lambda>g. \<forall>it cn s. it < length (namespaces s) \<and> cn < length (namespaces s) \<longrightarrow>
          grows s (comprehension_generator g it cn s)"])
  subgoal by (simp add: Let_def grows_refl grows_update_set)
  subgoal by (simp add: grows_update_set)
  subgoal by (simp add: grows_update_set)
  subgoal by (simp add: grows_refl)
  subgoal premises prems for x1 x2 x3
  proof (intro allI impI)
    fix ns and s :: state assume ns: "ns < length (namespaces s)"
    have "grows (set_namespace x1 ns s)
        (each (map (\<lambda>child. create_child_namespaces child ns) x3) (set_namespace x1 ns s))"
      by (rule each_visits_grow) (use prems ns in simp_all)
    then show "grows s (create_child_namespaces (Other x1 x2 x3) ns s)" by simp
  qed
  subgoal by (simp only: create_child_namespaces.simps) (erule wrapper_grows)
  subgoal by (simp only: create_child_namespaces.simps) (erule wrapper_grows)
  subgoal by (simp only: create_child_namespaces.simps) (erule wrapper_grows)
  subgoal by (simp only: create_child_namespaces.simps) (erule wrapper_grows)
  subgoal premises prems for x1 x2 x3 x4 x5 x6 x7 x8
  proof (intro allI impI)
    fix ns and s :: state assume ns: "ns < length (namespaces s)"
    define nd where "nd = FunctionDefNode (FunctionDef x1 x2 x3 x4 x5 x6 x7 x8)"
    define pair where "pair =
     (if x8 \<noteq> [] then
        (case new_child_namespace AnnotationNamespace nd x3 ns s of
           (annotation_ns, sa) \<Rightarrow>
             (case new_child_namespace FunctionNamespace nd x3 annotation_ns sa of
                (function_ns, sb) \<Rightarrow>
                  (function_ns,
                   each (map (\<lambda>type_param. create_child_namespaces type_param annotation_ns) x8) sb)))
      else new_child_namespace FunctionNamespace nd x3 ns s)"
    have ih8: "\<And>x ns s. x \<in> set x8 \<Longrightarrow> ns < length (namespaces s) \<Longrightarrow>
        grows s (create_child_namespaces x ns s)" using prems(5) by simp
    have g1: "grows s (snd pair)" unfolding pair_def
      by (rule definition_header_grows [OF ns _ ih8]) simp_all
    have fn: "fst pair < length (namespaces (snd pair))" unfolding pair_def
      by (rule definition_header_grows [OF ns _ ih8]) simp_all
    have ns1: "ns < length (namespaces (snd pair))" by (rule grows_length [OF g1 ns])
    define s2 where "s2 = assign_arguments_to_namespace x4 ns (fst pair) (snd pair)"
    have g2: "grows (snd pair) s2" unfolding s2_def using prems(1) ns1 fn by simp
    define s3 where "s3 = each (map (\<lambda>nd. create_child_namespaces nd (fst pair)) x5) s2"
    have g3: "grows s2 s3" unfolding s3_def
      by (rule each_visits_grow) (use prems(2) in simp, rule grows_length [OF g2 fn])
    define s4 where "s4 = each (map (\<lambda>nd. create_child_namespaces nd ns) x6) s3"
    have ns3: "ns < length (namespaces s3)"
      by (rule grows_length [OF grows_trans [OF g2 g3] ns1])
    have g4: "grows s3 s4" unfolding s4_def
      by (rule each_visits_grow) (use prems(3) in simp, rule ns3)
    have ns4: "ns < length (namespaces s4)" by (rule grows_length [OF g4 ns3])
    have g5: "grows s4 (if_present (map_option (\<lambda>r. create_child_namespaces r ns) x7) s4)"
      by (rule if_present_grows) (use prems(4) ns4 in simp)
    have e: "create_functiondef_namespace (FunctionDef x1 x2 x3 x4 x5 x6 x7 x8) ns s
        = if_present (map_option (\<lambda>r. create_child_namespaces r ns) x7) s4"
      by (simp add: Let_def split_beta pair_def s2_def s3_def s4_def nd_def)
    show "grows s (create_functiondef_namespace (FunctionDef x1 x2 x3 x4 x5 x6 x7 x8) ns s)"
      unfolding e
      by (rule grows_trans [OF g1 grows_trans [OF g2 grows_trans [OF g3 grows_trans [OF g4 g5]]]])
  qed
  subgoal premises prems for x1 x2 x3
  proof (intro allI impI)
    fix ns and s :: state assume ns: "ns < length (namespaces s)"
    let ?s1 = "snd (new_child_namespace FunctionNamespace (LambdaNode (Lambda x1 x2 x3)) ''Lambda'' ns s)"
    let ?fn = "length (namespaces s)"
    have g1: "grows s ?s1" by (rule grows_new_child [OF ns]) simp
    have fn: "?fn < length (namespaces ?s1)" by simp
    have ns1: "ns < length (namespaces ?s1)" by (rule grows_length [OF g1 ns])
    have g2: "grows ?s1 (assign_arguments_to_namespace x2 ns ?fn ?s1)"
      using prems(1) ns1 fn by blast
    have fn2: "?fn < length (namespaces (assign_arguments_to_namespace x2 ns ?fn ?s1))"
      by (rule grows_length [OF g2 fn])
    have g3: "grows (assign_arguments_to_namespace x2 ns ?fn ?s1)
        (create_child_namespaces x3 ?fn (assign_arguments_to_namespace x2 ns ?fn ?s1))"
      using prems(2) fn2 by blast
    have e: "create_lambda_namespace (Lambda x1 x2 x3) ns s
        = create_child_namespaces x3 ?fn (assign_arguments_to_namespace x2 ns ?fn ?s1)"
      by (simp add: split_beta)
    show "grows s (create_lambda_namespace (Lambda x1 x2 x3) ns s)"
      unfolding e by (rule grows_trans [OF g1 grows_trans [OF g2 g3]])
  qed
  subgoal premises prems for x1 x2 x3 x4 x5 x6 x7
  proof (intro allI impI)
    fix ns and s :: state assume ns: "ns < length (namespaces s)"
    define nd where "nd = ClassDefNode (ClassDef x1 x2 x3 x4 x5 x6 x7)"
    define pair where "pair =
     (if x7 \<noteq> [] then
        (case new_child_namespace AnnotationNamespace nd x2 ns s of
           (annotation_ns, sa) \<Rightarrow>
             (case new_child_namespace ClassNamespace nd x2 annotation_ns sa of
                (class_ns, sb) \<Rightarrow>
                  (class_ns,
                   each (map (\<lambda>type_param. create_child_namespaces type_param annotation_ns) x7) sb)))
      else new_child_namespace ClassNamespace nd x2 ns s)"
    have ih7: "\<And>x ns s. x \<in> set x7 \<Longrightarrow> ns < length (namespaces s) \<Longrightarrow>
        grows s (create_child_namespaces x ns s)" using prems(5) by simp
    have g1: "grows s (snd pair)" unfolding pair_def
      by (rule definition_header_grows [OF ns _ ih7]) simp_all
    have cn: "fst pair < length (namespaces (snd pair))" unfolding pair_def
      by (rule definition_header_grows [OF ns _ ih7]) simp_all
    have ns1: "ns < length (namespaces (snd pair))" by (rule grows_length [OF g1 ns])
    define s2 where "s2 = each (map (\<lambda>nd. create_child_namespaces nd ns) x3) (snd pair)"
    have g2: "grows (snd pair) s2" unfolding s2_def
      by (rule each_visits_grow) (use prems(1) in simp, rule ns1)
    have ns2: "ns < length (namespaces s2)" by (rule grows_length [OF g2 ns1])
    define s3 where "s3 = each (map (\<lambda>nd. create_child_namespaces nd ns) x4) s2"
    have g3: "grows s2 s3" unfolding s3_def
      by (rule each_visits_grow) (use prems(2) in simp, rule ns2)
    have cn3: "fst pair < length (namespaces s3)"
      by (rule grows_length [OF grows_trans [OF g2 g3] cn])
    define s4 where "s4 = each (map (\<lambda>nd. create_child_namespaces nd (fst pair)) x5) s3"
    have g4: "grows s3 s4" unfolding s4_def
      by (rule each_visits_grow) (use prems(3) in simp, rule cn3)
    have ns4: "ns < length (namespaces s4)"
      by (rule grows_length [OF grows_trans [OF g3 g4] ns2])
    have g5: "grows s4 (each (map (\<lambda>nd. create_child_namespaces nd ns) x6) s4)"
      by (rule each_visits_grow) (use prems(4) in simp, rule ns4)
    have e: "create_class_namespace (ClassDef x1 x2 x3 x4 x5 x6 x7) ns s
        = each (map (\<lambda>nd. create_child_namespaces nd ns) x6) s4"
      by (simp add: Let_def split_beta pair_def s2_def s3_def s4_def nd_def)
    show "grows s (create_class_namespace (ClassDef x1 x2 x3 x4 x5 x6 x7) ns s)"
      unfolding e
      by (rule grows_trans [OF g1 grows_trans [OF g2 grows_trans [OF g3 grows_trans [OF g4 g5]]]])
  qed
  subgoal premises prems for x1 x2 x3
  proof (intro allI impI)
    fix ns and s :: state assume ns: "ns < length (namespaces s)"
    let ?s1 = "snd (new_child_namespace FunctionNamespace (CompNode (GeneratorExp x1 x2 x3))
        ''GeneratorExp'' ns s)"
    let ?cn = "length (namespaces s)"
    have g1: "grows s ?s1" by (rule grows_new_child [OF ns]) simp
    have cn: "?cn < length (namespaces ?s1)" by simp
    have g2: "grows ?s1 (create_child_namespaces x2 ?cn ?s1)" using prems(1) cn by blast
    have cn2: "?cn < length (namespaces (create_child_namespaces x2 ?cn ?s1))"
      by (rule grows_length [OF g2 cn])
    have ns2: "ns < length (namespaces (create_child_namespaces x2 ?cn ?s1))"
      by (rule grows_length [OF grows_trans [OF g1 g2] ns])
    have g3: "grows (create_child_namespaces x2 ?cn ?s1)
        (each_generator (map (\<lambda>g it. comprehension_generator g it ?cn) x3) ns ?cn
           (create_child_namespaces x2 ?cn ?s1))"
      by (rule each_generator_grows [OF _ ns2 cn2]) (use prems(2) in simp)
    show "grows s (create_comprehension_namespace (GeneratorExp x1 x2 x3) ns s)"
      using grows_trans [OF g1 grows_trans [OF g2 g3]] by (simp add: split_beta)
  qed
  subgoal premises prems for x1 x2 x3
  proof (intro allI impI)
    fix ns and s :: state assume ns: "ns < length (namespaces s)"
    let ?s1 = "snd (new_child_namespace FunctionNamespace (CompNode (SetComp x1 x2 x3))
        ''SetComp'' ns s)"
    let ?cn = "length (namespaces s)"
    have g1: "grows s ?s1" by (rule grows_new_child [OF ns]) simp
    have cn: "?cn < length (namespaces ?s1)" by simp
    have g2: "grows ?s1 (create_child_namespaces x2 ?cn ?s1)" using prems(1) cn by blast
    have cn2: "?cn < length (namespaces (create_child_namespaces x2 ?cn ?s1))"
      by (rule grows_length [OF g2 cn])
    have ns2: "ns < length (namespaces (create_child_namespaces x2 ?cn ?s1))"
      by (rule grows_length [OF grows_trans [OF g1 g2] ns])
    have g3: "grows (create_child_namespaces x2 ?cn ?s1)
        (each_generator (map (\<lambda>g it. comprehension_generator g it ?cn) x3) ns ?cn
           (create_child_namespaces x2 ?cn ?s1))"
      by (rule each_generator_grows [OF _ ns2 cn2]) (use prems(2) in simp)
    show "grows s (create_comprehension_namespace (SetComp x1 x2 x3) ns s)"
      using grows_trans [OF g1 grows_trans [OF g2 g3]] by (simp add: split_beta)
  qed
  subgoal premises prems for x1 x2 x3
  proof (intro allI impI)
    fix ns and s :: state assume ns: "ns < length (namespaces s)"
    let ?s1 = "snd (new_child_namespace FunctionNamespace (CompNode (ListComp x1 x2 x3))
        ''ListComp'' ns s)"
    let ?cn = "length (namespaces s)"
    have g1: "grows s ?s1" by (rule grows_new_child [OF ns]) simp
    have cn: "?cn < length (namespaces ?s1)" by simp
    have g2: "grows ?s1 (create_child_namespaces x2 ?cn ?s1)" using prems(1) cn by blast
    have cn2: "?cn < length (namespaces (create_child_namespaces x2 ?cn ?s1))"
      by (rule grows_length [OF g2 cn])
    have ns2: "ns < length (namespaces (create_child_namespaces x2 ?cn ?s1))"
      by (rule grows_length [OF grows_trans [OF g1 g2] ns])
    have g3: "grows (create_child_namespaces x2 ?cn ?s1)
        (each_generator (map (\<lambda>g it. comprehension_generator g it ?cn) x3) ns ?cn
           (create_child_namespaces x2 ?cn ?s1))"
      by (rule each_generator_grows [OF _ ns2 cn2]) (use prems(2) in simp)
    show "grows s (create_comprehension_namespace (ListComp x1 x2 x3) ns s)"
      using grows_trans [OF g1 grows_trans [OF g2 g3]] by (simp add: split_beta)
  qed
  subgoal premises prems for x1 x2 x3 x4
  proof (intro allI impI)
    fix ns and s :: state assume ns: "ns < length (namespaces s)"
    let ?s1 = "snd (new_child_namespace FunctionNamespace (CompNode (DictComp x1 x2 x3 x4))
        ''DictComp'' ns s)"
    let ?cn = "length (namespaces s)"
    let ?s2 = "create_child_namespaces x2 ?cn ?s1"
    let ?s3 = "create_child_namespaces x3 ?cn ?s2"
    have g1: "grows s ?s1" by (rule grows_new_child [OF ns]) simp
    have cn: "?cn < length (namespaces ?s1)" by simp
    have g2: "grows ?s1 ?s2" using prems(1) cn by blast
    have cn2: "?cn < length (namespaces ?s2)" by (rule grows_length [OF g2 cn])
    have g2': "grows ?s2 ?s3" using prems(2) cn2 by blast
    have cn3: "?cn < length (namespaces ?s3)" by (rule grows_length [OF g2' cn2])
    have ns3: "ns < length (namespaces ?s3)"
      by (rule grows_length [OF grows_trans [OF g1 grows_trans [OF g2 g2']] ns])
    have g3: "grows ?s3
        (each_generator (map (\<lambda>g it. comprehension_generator g it ?cn) x4) ns ?cn ?s3)"
      by (rule each_generator_grows [OF _ ns3 cn3]) (use prems(3) in simp)
    show "grows s (create_comprehension_namespace (DictComp x1 x2 x3 x4) ns s)"
      using grows_trans [OF g1 grows_trans [OF g2 grows_trans [OF g2' g3]]]
      by (simp add: split_beta)
  qed
  subgoal premises prems for x1 x2 x3 x4 x5 x6 x7 x8
  proof (intro allI impI)
    fix p f and s :: state
    assume pf: "p < length (namespaces s) \<and> f < length (namespaces s)"
    let ?Pre = "\<lambda>s. p < length (namespaces s) \<and> f < length (namespaces s)"
    let ?visit = "\<lambda>arg s. annotation_namespaces arg p
        (annotation_namespaces arg f (set_namespace (arg_attributes arg) f s))"
    let ?star = "\<lambda>arg s. annotation_namespaces arg f (set_namespace (arg_attributes arg) f s)"
    have star: "\<And>x s. x \<in> set x2 \<union> set x3 \<union> set x5 \<union> set_option x4 \<union> set_option x7 \<Longrightarrow>
        ?Pre s \<Longrightarrow> grows s (?star x s)"
    proof -
      fix x and s :: state
      assume x: "x \<in> set x2 \<union> set x3 \<union> set x5 \<union> set_option x4 \<union> set_option x7" and "?Pre s"
      then have "f < length (namespaces (set_namespace (arg_attributes x) f s))" by simp
      moreover from x prems(1,2,3,4,6) have "\<forall>ns s. ns < length (namespaces s) \<longrightarrow>
          grows s (annotation_namespaces x ns s)" by blast
      ultimately have "grows (set_namespace (arg_attributes x) f s) (?star x s)" by blast
      then show "grows s (?star x s)" by simp
    qed
    have visit: "\<And>x s. x \<in> set x2 \<union> set x3 \<union> set x5 \<Longrightarrow> ?Pre s \<Longrightarrow> grows s (?visit x s)"
    proof -
      fix x and s :: state
      assume x: "x \<in> set x2 \<union> set x3 \<union> set x5" and pre: "?Pre s"
      have 1: "grows s (?star x s)" by (rule star) (use x pre in auto)
      from pre have "p < length (namespaces (?star x s))" using grows_length [OF 1] by blast
      moreover from x prems(1,2,4) have "\<forall>ns s. ns < length (namespaces s) \<longrightarrow>
          grows s (annotation_namespaces x ns s)" by blast
      ultimately have "grows (?star x s) (?visit x s)" by blast
      with 1 show "grows s (?visit x s)" by (rule grows_trans)
    qed
    define s1 where "s1 = set_namespace x1 f s"
    have pre1: "?Pre s1" using pf by (simp add: s1_def)
    define s2a where "s2a = each (map ?visit x2) s1"
    have g2a: "grows s1 s2a" unfolding s2a_def
      by (rule each_map_grows [where Pre = ?Pre, OF pre_length2 _ pre1]) (simp_all add: visit)
    have pre2a: "?Pre s2a" by (rule pre_length2 [OF pre1 g2a])
    define s2 where "s2 = each (map ?visit x3) s2a"
    have g2: "grows s2a s2" unfolding s2_def
      by (rule each_map_grows [where Pre = ?Pre, OF pre_length2 _ pre2a]) (simp_all add: visit)
    have pre2: "?Pre s2" by (rule pre_length2 [OF pre2a g2])
    define s3 where "s3 = each (map ?visit x5) s2"
    have g3: "grows s2 s3" unfolding s3_def
      by (rule each_map_grows [where Pre = ?Pre, OF pre_length2 _ pre2]) (simp_all add: visit)
    have pre3: "?Pre s3" by (rule pre_length2 [OF pre2 g3])
    define s4 where "s4 = each (map if_present
        (map (map_option (\<lambda>nd. create_child_namespaces nd p)) x6)) s3"
    have g4: "grows s3 s4" unfolding s4_def
      by (rule each_if_present_grows [where Pre = ?Pre, OF pre_length2 _ pre3])
         (use prems(5) in simp_all)
    have pre4: "?Pre s4" by (rule pre_length2 [OF pre3 g4])
    define s5 where "s5 = each (map (\<lambda>nd. create_child_namespaces nd p) x8) s4"
    have g5: "grows s4 s5" unfolding s5_def
      by (rule each_visits_grow) (use prems(7) pre4 in simp_all)
    have pre5: "?Pre s5" by (rule pre_length2 [OF pre4 g5])
    define s6 where "s6 = if_present (map_option ?star x4) s5"
    have g6: "grows s5 s6" unfolding s6_def
      by (rule if_present_grows) (rule star, simp, rule pre5)
    have pre6: "?Pre s6" by (rule pre_length2 [OF pre5 g6])
    have g7: "grows s6 (if_present (map_option ?star x7) s6)"
      by (rule if_present_grows) (rule star, simp, rule pre6)
    have e: "assign_arguments_to_namespace (Arguments x1 x2 x3 x4 x5 x6 x7 x8) p f s
        = if_present (map_option ?star x7) s6"
      by (simp add: Let_def each_append s1_def s2a_def s2_def s3_def s4_def s5_def s6_def)
    have "grows s1 (if_present (map_option ?star x7) s6)"
      by (rule grows_trans [OF g2a grows_trans [OF g2 grows_trans [OF g3 grows_trans [OF g4
            grows_trans [OF g5 grows_trans [OF g6 g7]]]]]])
    then show "grows s (assign_arguments_to_namespace (Arguments x1 x2 x3 x4 x5 x6 x7 x8) p f s)"
      unfolding e by (simp add: s1_def)
  qed
  subgoal premises prems for x1 x2 x3
  proof (intro allI impI)
    fix ns and s :: state assume ns: "ns < length (namespaces s)"
    show "grows s (annotation_namespaces (Arg x1 x2 x3) ns s)"
      by (simp only: annotation_namespaces.simps)
         (rule if_present_grows, use prems ns in simp)
  qed
  subgoal premises prems for x1 x2 x3 x4 x5
  proof (intro allI impI)
    fix it cn and s :: state
    assume a: "it < length (namespaces s) \<and> cn < length (namespaces s)"
    let ?s1 = "set_namespace x1 cn s"
    let ?s2 = "create_child_namespaces x2 cn ?s1"
    let ?s3 = "create_child_namespaces x3 it ?s2"
    have "cn < length (namespaces ?s1)" using a by simp
    with prems(1) have g2: "grows ?s1 ?s2" by blast
    have "it < length (namespaces ?s2)" using grows_length [OF g2] a by simp
    then have g3: "grows ?s2 ?s3" using prems(2) by blast
    have "cn < length (namespaces ?s3)" using grows_length [OF grows_trans [OF g2 g3]] a by simp
    then have g4: "grows ?s3 (each (map (\<lambda>cond. create_child_namespaces cond cn) x4) ?s3)"
      by (intro each_visits_grow) (use prems(3) in simp_all)
    have "grows ?s1 (each (map (\<lambda>cond. create_child_namespaces cond cn) x4) ?s3)"
      by (rule grows_trans [OF g2 grows_trans [OF g3 g4]])
    then show "grows s (comprehension_generator (Comprehension x1 x2 x3 x4 x5) it cn s)"
      by (simp add: Let_def)
  qed
  done

section \<open>The owner of a node after the pass\<close>

lemma owner_frame_node:
  "k \<notin> set (node_ids n) \<Longrightarrow> node_namespace (create_child_namespaces n ns s) k = node_namespace s k"
  by (rule owner_frame [THEN conjunct1, rule_format])

lemma owner_frame_functiondef:
  "k \<notin> set (functiondef_ids fd) \<Longrightarrow>
     node_namespace (create_functiondef_namespace fd ns s) k = node_namespace s k"
  by (rule owner_frame [THEN conjunct2, THEN conjunct1, rule_format])

lemma owner_frame_lambda:
  "k \<notin> set (lambda_ids l) \<Longrightarrow>
     node_namespace (create_lambda_namespace l ns s) k = node_namespace s k"
  by (rule owner_frame [THEN conjunct2, THEN conjunct2, THEN conjunct1, rule_format])

lemma owner_frame_classdef:
  "k \<notin> set (classdef_ids cd) \<Longrightarrow>
     node_namespace (create_class_namespace cd ns s) k = node_namespace s k"
  by (rule owner_frame [THEN conjunct2, THEN conjunct2, THEN conjunct2, THEN conjunct1, rule_format])

lemma owner_frame_comp:
  "k \<notin> set (comp_ids c) \<Longrightarrow>
     node_namespace (create_comprehension_namespace c ns s) k = node_namespace s k"
  by (rule owner_frame [THEN conjunct2, THEN conjunct2, THEN conjunct2, THEN conjunct2, THEN conjunct1, rule_format])

lemma owner_frame_arguments:
  "k \<notin> set (arguments_ids ar) \<Longrightarrow>
     node_namespace (assign_arguments_to_namespace ar p f s) k = node_namespace s k"
  by (rule owner_frame [THEN conjunct2, THEN conjunct2, THEN conjunct2, THEN conjunct2, THEN conjunct2, THEN conjunct1, rule_format])

lemma owner_frame_annotation:
  "k \<notin> set (arg_ids a) \<Longrightarrow>
     node_namespace (annotation_namespaces a ns s) k = node_namespace s k"
  by (rule owner_frame [THEN conjunct2, THEN conjunct2, THEN conjunct2, THEN conjunct2, THEN conjunct2, THEN conjunct2, THEN conjunct1, rule_format])

lemma owner_frame_generator:
  "k \<notin> set (comprehension_ids g) \<Longrightarrow>
     node_namespace (comprehension_generator g it cn s) k = node_namespace s k"
  by (rule owner_frame [THEN conjunct2, THEN conjunct2, THEN conjunct2, THEN conjunct2, THEN conjunct2, THEN conjunct2, THEN conjunct2, rule_format])

lemma grows_node:
  "ns < length (namespaces s) \<Longrightarrow> grows s (create_child_namespaces n ns s)"
  by (rule builder_grows [THEN conjunct1, rule_format])

lemma grows_arguments:
  "p < length (namespaces s) \<Longrightarrow> f < length (namespaces s) \<Longrightarrow>
     grows s (assign_arguments_to_namespace ar p f s)"
  by (rule builder_grows [THEN conjunct2, THEN conjunct2, THEN conjunct2, THEN conjunct2, THEN conjunct2, THEN conjunct1, rule_format]) simp

lemma grows_generator:
  "it < length (namespaces s) \<Longrightarrow> cn < length (namespaces s) \<Longrightarrow>
     grows s (comprehension_generator g it cn s)"
  by (rule builder_grows [THEN conjunct2, THEN conjunct2, THEN conjunct2, THEN conjunct2, THEN conjunct2, THEN conjunct2, THEN conjunct2, rule_format]) simp

lemma grows_annotation:
  "ns < length (namespaces s) \<Longrightarrow> grows s (annotation_namespaces a ns s)"
  by (rule builder_grows [THEN conjunct2, THEN conjunct2, THEN conjunct2, THEN conjunct2, THEN conjunct2, THEN conjunct2, THEN conjunct1, rule_format])

lemma node_ids_root: "node_ids n = root_id n # tl (node_ids n)"
  by (cases n) (simp_all add: root_id_def)

lemma root_id_in: "root_id n \<in> set (node_ids n)"
  by (subst node_ids_root) simp

lemma root_owner:
  assumes "distinct (node_ids n)"
  shows "node_namespace (create_child_namespaces n ns s) (root_id n) = Some ns"
proof (cases n)
  case (Name a ident ctx parent)
  then show ?thesis by (simp add: root_id_def Let_def)
next
  case (Global a names)
  then show ?thesis by (simp add: root_id_def)
next
  case (Nonlocal a names)
  then show ?thesis by (simp add: root_id_def)
next
  case (Constant a v)
  then show ?thesis by (simp add: root_id_def)
next
  case (Other a cls cs)
  have "node_namespace (each (map (\<lambda>child. create_child_namespaces child ns) cs)
            (set_namespace a ns s)) (nid a)
        = node_namespace (set_namespace a ns s) (nid a)"
    by (rule each_map_frame, rule owner_frame_node) (use assms Other in auto)
  with Other show ?thesis by (simp add: root_id_def)
next
  case (FunctionDefNode fd)
  with assms show ?thesis by (simp add: root_id_def owner_frame_functiondef)
next
  case (LambdaNode l)
  with assms show ?thesis by (simp add: root_id_def owner_frame_lambda)
next
  case (ClassDefNode cd)
  with assms show ?thesis by (simp add: root_id_def owner_frame_classdef)
next
  case (CompNode c)
  with assms show ?thesis by (simp add: root_id_def owner_frame_comp)
qed

text \<open>
  A loop over a list whose elements have disjoint sets of nodes: what the visit of one
  element assigns to a node of that element is still there when the loop has ended.
\<close>

lemma each_map_owner:
  assumes frame: "\<And>x s. x \<in> set xs \<Longrightarrow> k \<notin> set (ids x) \<Longrightarrow>
             node_namespace (f x s) k = node_namespace s k"
    and hit: "\<And>s. node_namespace (f y s) k = v"
    and y: "y \<in> set xs" and k: "k \<in> set (ids y)"
    and d: "distinct (concat (map ids xs))"
  shows "node_namespace (each (map f xs) s) k = v"
  using frame y d
proof (induction xs arbitrary: s)
  case Nil
  then show ?case by simp
next
  case (Cons x xs)
  have e: "each (map f (x # xs)) s = each (map f xs) (f x s)" by (simp add: each_def)
  show ?case
  proof (cases "y = x")
    case True
    have "\<And>z. z \<in> set xs \<Longrightarrow> k \<notin> set (ids z)"
      using Cons.prems(3) k True by auto
    then have "node_namespace (each (map f xs) (f x s)) k = node_namespace (f x s) k"
      by (intro each_map_frame Cons.prems(1)) simp_all
    with hit True show ?thesis unfolding e by simp
  next
    case False
    with Cons.prems(2) have "y \<in> set xs" by simp
    moreover have "distinct (concat (map ids xs))" using Cons.prems(3) by simp
    ultimately have "node_namespace (each (map f xs) (f x s)) k = v"
      by (intro Cons.IH) (simp_all add: Cons.prems(1))
    then show ?thesis unfolding e .
  qed
qed

lemma each_nodes_root_owner:
  assumes "y \<in> set xs" and "distinct (concat (map node_ids xs))"
  shows "node_namespace (each (map (\<lambda>x. create_child_namespaces x ns) xs) s) (root_id y) = Some ns"
proof (rule each_map_owner [where ids = node_ids and y = y])
  show "y \<in> set xs" by (rule assms(1))
  show "distinct (concat (map node_ids xs))" by (rule assms(2))
  show "root_id y \<in> set (node_ids y)" by (rule root_id_in)
  have "distinct (node_ids y)" using assms by (induction xs) auto
  then show "\<And>s. node_namespace (create_child_namespaces y ns s) (root_id y) = Some ns"
    by (rule root_owner)
  show "\<And>x s. x \<in> set xs \<Longrightarrow> root_id y \<notin> set (node_ids x) \<Longrightarrow>
      node_namespace (create_child_namespaces x ns s) (root_id y) = node_namespace s (root_id y)"
    by (rule owner_frame_node)
qed

lemma grows_entry:
  assumes "grows s s'" and "i < length (namespaces s)"
  shows "kind (namespaces s' ! i) = kind (namespaces s ! i)"
    and "node (namespaces s' ! i) = node (namespaces s ! i)"
    and "name (namespaces s' ! i) = name (namespaces s ! i)"
    and "parent_namespace (namespaces s' ! i) = parent_namespace (namespaces s ! i)"
  using assms by (simp_all add: grows_def heap_extends_def)

lemma definition_header_entry:
  fixes s :: state and nd :: node and nm :: string and k :: namespace_kind and ns :: nat
    and tps :: "'a list" and f :: "'a \<Rightarrow> nat \<Rightarrow> state \<Rightarrow> state"
  assumes ns: "ns < length (namespaces s)" and k: "k \<noteq> ModuleNamespace"
    and ih: "\<And>x ns s. x \<in> set tps \<Longrightarrow> ns < length (namespaces s) \<Longrightarrow> grows s (f x ns s)"
  defines "pair \<equiv>
     (if tps \<noteq> [] then
        (case new_child_namespace AnnotationNamespace nd nm ns s of
           (annotation_ns, sa) \<Rightarrow>
             (case new_child_namespace k nd nm annotation_ns sa of
                (function_ns, sb) \<Rightarrow>
                  (function_ns, each (map (\<lambda>type_param. f type_param annotation_ns) tps) sb)))
      else new_child_namespace k nd nm ns s)"
    and "c \<equiv> length (namespaces s) + (if tps = [] then 0 else 1)"
  shows "fst pair = c"
    and "kind (namespaces (snd pair) ! c) = k"
    and "node (namespaces (snd pair) ! c) = nd"
    and "parent_namespace (namespaces (snd pair) ! c)
           = Some (if tps = [] then ns else length (namespaces s))"
    and "tps \<noteq> [] \<Longrightarrow> kind (namespaces (snd pair) ! length (namespaces s)) = AnnotationNamespace"
    and "tps \<noteq> [] \<Longrightarrow> node (namespaces (snd pair) ! length (namespaces s)) = nd"
    and "tps \<noteq> [] \<Longrightarrow> parent_namespace (namespaces (snd pair) ! length (namespaces s)) = Some ns"
proof -
  let ?sa = "snd (new_child_namespace AnnotationNamespace nd nm ns s)"
  let ?an = "length (namespaces s)"
  let ?sb = "snd (new_child_namespace k nd nm ?an ?sa)"
  let ?sc = "each (map (\<lambda>type_param. f type_param ?an) tps) ?sb"
  have an: "?an < length (namespaces ?sa)" by simp
  have 2: "grows ?sa ?sb" by (rule grows_new_child [OF an k])
  have an': "?an < length (namespaces ?sb)" by simp
  have fn: "Suc ?an < length (namespaces ?sb)" by simp
  have 3: "grows ?sb ?sc" by (rule each_visits_grow [OF ih an'])
  have 23: "grows ?sa ?sc" by (rule grows_trans [OF 2 3])
  have la: "length (namespaces ?sa) = Suc ?an" by simp
  have e: "tps \<noteq> [] \<Longrightarrow> snd pair = ?sc" "tps \<noteq> [] \<Longrightarrow> fst pair = Suc ?an"
    "tps = [] \<Longrightarrow> pair = new_child_namespace k nd nm ns s"
    by (simp_all add: pair_def split_beta)
  show "fst pair = c" using e by (cases "tps = []") (simp_all add: c_def)
  show "kind (namespaces (snd pair) ! c) = k"
    using e new_child_namespace_entry(1) [OF ns, of k nd nm]
      new_child_namespace_entry(1) [OF an, of k nd nm] grows_entry(1) [OF 3 fn]
    by (cases "tps = []") (simp_all add: c_def la)
  show "node (namespaces (snd pair) ! c) = nd"
    using e new_child_namespace_entry(2) [OF ns, of k nd nm]
      new_child_namespace_entry(2) [OF an, of k nd nm] grows_entry(2) [OF 3 fn]
    by (cases "tps = []") (simp_all add: c_def la)
  show "parent_namespace (namespaces (snd pair) ! c)
           = Some (if tps = [] then ns else length (namespaces s))"
    using e new_child_namespace_entry(4) [OF ns, of k nd nm]
      new_child_namespace_entry(4) [OF an, of k nd nm] grows_entry(4) [OF 3 fn]
    by (cases "tps = []") (simp_all add: c_def la)
  show "kind (namespaces (snd pair) ! length (namespaces s)) = AnnotationNamespace" if "tps \<noteq> []"
    using e(1) [OF that] new_child_namespace_entry(1) [OF ns, of AnnotationNamespace nd nm]
      grows_entry(1) [OF 23 an]
    by simp
  show "node (namespaces (snd pair) ! length (namespaces s)) = nd" if "tps \<noteq> []"
    using e(1) [OF that] new_child_namespace_entry(2) [OF ns, of AnnotationNamespace nd nm]
      grows_entry(2) [OF 23 an]
    by simp
  show "parent_namespace (namespaces (snd pair) ! length (namespaces s)) = Some ns" if "tps \<noteq> []"
    using e(1) [OF that] new_child_namespace_entry(4) [OF ns, of AnnotationNamespace nd nm]
      grows_entry(4) [OF 23 an]
    by simp
qed

lemma if_present_node_grows:
  "ns < length (namespaces s) \<Longrightarrow>
     grows s (if_present (map_option (\<lambda>r. create_child_namespaces r ns) ro) s)"
  by (rule if_present_grows) (rule grows_node)

lemma each_nodes_grow:
  "ns < length (namespaces s) \<Longrightarrow>
     grows s (each (map (\<lambda>nd. create_child_namespaces nd ns) xs) s)"
  by (rule each_visits_grow [where f = create_child_namespaces]) (rule grows_node)

lemma functiondef_tail_grows:
  assumes ns: "ns < length (namespaces s1)" and fn: "fn < length (namespaces s1)"
  shows "grows s1
     (if_present (map_option (\<lambda>r. create_child_namespaces r ns) returns)
        (each (map (\<lambda>nd. create_child_namespaces nd ns) decorator_list)
           (each (map (\<lambda>nd. create_child_namespaces nd fn) body)
              (assign_arguments_to_namespace arguments ns fn s1))))"
proof -
  let ?s2 = "assign_arguments_to_namespace arguments ns fn s1"
  let ?s3 = "each (map (\<lambda>nd. create_child_namespaces nd fn) body) ?s2"
  let ?s4 = "each (map (\<lambda>nd. create_child_namespaces nd ns) decorator_list) ?s3"
  have 2: "grows s1 ?s2" by (rule grows_arguments [OF ns fn])
  have 3: "grows ?s2 ?s3" by (rule each_nodes_grow) (rule grows_length [OF 2 fn])
  have 13: "grows s1 ?s3" by (rule grows_trans [OF 2 3])
  have 4: "grows ?s3 ?s4" by (rule each_nodes_grow) (rule grows_length [OF 13 ns])
  have 14: "grows s1 ?s4" by (rule grows_trans [OF 13 4])
  have 5: "grows ?s4 (if_present (map_option (\<lambda>r. create_child_namespaces r ns) returns) ?s4)"
    by (rule if_present_node_grows) (rule grows_length [OF 14 ns])
  show ?thesis by (rule grows_trans [OF 14 5])
qed

lemma class_tail_grows:
  assumes ns: "ns < length (namespaces s1)" and cn: "cn < length (namespaces s1)"
  shows "grows s1
     (each (map (\<lambda>nd. create_child_namespaces nd ns) decorator_list)
        (each (map (\<lambda>nd. create_child_namespaces nd cn) body)
           (each (map (\<lambda>nd. create_child_namespaces nd ns) keywords)
              (each (map (\<lambda>nd. create_child_namespaces nd ns) bases) s1))))"
proof -
  let ?s2 = "each (map (\<lambda>nd. create_child_namespaces nd ns) bases) s1"
  let ?s3 = "each (map (\<lambda>nd. create_child_namespaces nd ns) keywords) ?s2"
  let ?s4 = "each (map (\<lambda>nd. create_child_namespaces nd cn) body) ?s3"
  have 2: "grows s1 ?s2" by (rule each_nodes_grow [OF ns])
  have 3: "grows ?s2 ?s3" by (rule each_nodes_grow) (rule grows_length [OF 2 ns])
  have 13: "grows s1 ?s3" by (rule grows_trans [OF 2 3])
  have 4: "grows ?s3 ?s4" by (rule each_nodes_grow) (rule grows_length [OF 13 cn])
  have 14: "grows s1 ?s4" by (rule grows_trans [OF 13 4])
  have 5: "grows ?s4 (each (map (\<lambda>nd. create_child_namespaces nd ns) decorator_list) ?s4)"
    by (rule each_nodes_grow) (rule grows_length [OF 14 ns])
  show ?thesis by (rule grows_trans [OF 14 5])
qed

lemma functiondef_introduced:
  fixes fd :: functiondef and ns :: nat and s :: state
  assumes ns: "ns < length (namespaces s)"
  defines "s' \<equiv> create_functiondef_namespace fd ns s"
    and "c \<equiv> length (namespaces s) + (if fd_type_params fd = [] then 0 else 1)"
  shows "c < length (namespaces s')"
    and "kind (namespaces s' ! c) = FunctionNamespace"
    and "node (namespaces s' ! c) = FunctionDefNode fd"
    and "parent_namespace (namespaces s' ! c)
           = Some (if fd_type_params fd = [] then ns else length (namespaces s))"
    and "fd_type_params fd \<noteq> [] \<Longrightarrow>
           kind (namespaces s' ! length (namespaces s)) = AnnotationNamespace"
    and "fd_type_params fd \<noteq> [] \<Longrightarrow>
           parent_namespace (namespaces s' ! length (namespaces s)) = Some ns"
    and "fd_type_params fd \<noteq> [] \<Longrightarrow>
           node (namespaces s' ! length (namespaces s)) = FunctionDefNode fd"
proof -
  obtain a asy nm arguments body decorator_list returns tps
    where fd: "fd = FunctionDef a asy nm arguments body decorator_list returns tps"
    by (cases fd)
  define pair where "pair =
     (if tps \<noteq> [] then
        (case new_child_namespace AnnotationNamespace (FunctionDefNode fd) nm ns s of
           (annotation_ns, sa) \<Rightarrow>
             (case new_child_namespace FunctionNamespace (FunctionDefNode fd) nm annotation_ns sa of
                (function_ns, sb) \<Rightarrow>
                  (function_ns,
                   each (map (\<lambda>type_param. create_child_namespaces type_param annotation_ns) tps)
                     sb)))
      else new_child_namespace FunctionNamespace (FunctionDefNode fd) nm ns s)"
  have g: "grows s (snd pair)" and fn: "fst pair < length (namespaces (snd pair))"
    unfolding pair_def
    by (rule definition_header_grows [where f = create_child_namespaces]; simp add: ns grows_node)+
  have h: "fst pair = c" "kind (namespaces (snd pair) ! c) = FunctionNamespace"
    "node (namespaces (snd pair) ! c) = FunctionDefNode fd"
    "parent_namespace (namespaces (snd pair) ! c)
       = Some (if tps = [] then ns else length (namespaces s))"
    unfolding pair_def c_def fd functiondef.sel
    by (rule definition_header_entry [where f = create_child_namespaces];
        simp add: ns grows_node)+
  have ha: "kind (namespaces (snd pair) ! length (namespaces s)) = AnnotationNamespace"
    "node (namespaces (snd pair) ! length (namespaces s)) = FunctionDefNode fd"
    "parent_namespace (namespaces (snd pair) ! length (namespaces s)) = Some ns"
    if "tps \<noteq> []"
    unfolding pair_def
    by (rule definition_header_entry [where f = create_child_namespaces];
        simp add: ns grows_node that)+
  have ns1: "ns < length (namespaces (snd pair))" by (rule grows_length [OF g ns])
  have e: "s' =
     (if_present (map_option (\<lambda>r. create_child_namespaces r ns) returns)
        (each (map (\<lambda>nd. create_child_namespaces nd ns) decorator_list)
           (each (map (\<lambda>nd. create_child_namespaces nd (fst pair)) body)
              (assign_arguments_to_namespace arguments ns (fst pair) (snd pair)))))"
    unfolding s'_def pair_def fd by (simp add: Let_def split_beta)
  have t: "grows (snd pair) s'" unfolding e by (rule functiondef_tail_grows [OF ns1 fn])
  have cl: "c < length (namespaces (snd pair))" using fn h(1) by simp
  have al: "length (namespaces s) < length (namespaces (snd pair))"
    using cl by (simp add: c_def split: if_splits)
  show "c < length (namespaces s')" by (rule grows_length [OF t cl])
  show "kind (namespaces s' ! c) = FunctionNamespace" using grows_entry(1) [OF t cl] h by simp
  show "node (namespaces s' ! c) = FunctionDefNode fd" using grows_entry(2) [OF t cl] h by simp
  show "parent_namespace (namespaces s' ! c)
           = Some (if fd_type_params fd = [] then ns else length (namespaces s))"
    using grows_entry(4) [OF t cl] h by (simp add: fd)
  show "kind (namespaces s' ! length (namespaces s)) = AnnotationNamespace"
    if "fd_type_params fd \<noteq> []"
    using grows_entry(1) [OF t al] ha that by (simp add: fd)
  show "parent_namespace (namespaces s' ! length (namespaces s)) = Some ns"
    if "fd_type_params fd \<noteq> []"
    using grows_entry(4) [OF t al] ha that by (simp add: fd)
  show "node (namespaces s' ! length (namespaces s)) = FunctionDefNode fd"
    if "fd_type_params fd \<noteq> []"
    using grows_entry(2) [OF t al] ha that by (simp add: fd)
qed

lemma classdef_introduced:
  fixes cd :: classdef and ns :: nat and s :: state
  assumes ns: "ns < length (namespaces s)"
  defines "s' \<equiv> create_class_namespace cd ns s"
    and "c \<equiv> length (namespaces s) + (if cd_type_params cd = [] then 0 else 1)"
  shows "c < length (namespaces s')"
    and "kind (namespaces s' ! c) = ClassNamespace"
    and "node (namespaces s' ! c) = ClassDefNode cd"
    and "parent_namespace (namespaces s' ! c)
           = Some (if cd_type_params cd = [] then ns else length (namespaces s))"
    and "cd_type_params cd \<noteq> [] \<Longrightarrow>
           kind (namespaces s' ! length (namespaces s)) = AnnotationNamespace"
    and "cd_type_params cd \<noteq> [] \<Longrightarrow>
           parent_namespace (namespaces s' ! length (namespaces s)) = Some ns"
    and "cd_type_params cd \<noteq> [] \<Longrightarrow>
           node (namespaces s' ! length (namespaces s)) = ClassDefNode cd"
proof -
  obtain a nm bases kws body decorator_list tps
    where cd: "cd = ClassDef a nm bases kws body decorator_list tps"
    by (cases cd)
  define pair where "pair =
     (if tps \<noteq> [] then
        (case new_child_namespace AnnotationNamespace (ClassDefNode cd) nm ns s of
           (annotation_ns, sa) \<Rightarrow>
             (case new_child_namespace ClassNamespace (ClassDefNode cd) nm annotation_ns sa of
                (function_ns, sb) \<Rightarrow>
                  (function_ns,
                   each (map (\<lambda>type_param. create_child_namespaces type_param annotation_ns) tps)
                     sb)))
      else new_child_namespace ClassNamespace (ClassDefNode cd) nm ns s)"
  have g: "grows s (snd pair)" and fn: "fst pair < length (namespaces (snd pair))"
    unfolding pair_def
    by (rule definition_header_grows [where f = create_child_namespaces]; simp add: ns grows_node)+
  have h: "fst pair = c" "kind (namespaces (snd pair) ! c) = ClassNamespace"
    "node (namespaces (snd pair) ! c) = ClassDefNode cd"
    "parent_namespace (namespaces (snd pair) ! c)
       = Some (if tps = [] then ns else length (namespaces s))"
    unfolding pair_def c_def cd classdef.sel
    by (rule definition_header_entry [where f = create_child_namespaces];
        simp add: ns grows_node)+
  have ha: "kind (namespaces (snd pair) ! length (namespaces s)) = AnnotationNamespace"
    "node (namespaces (snd pair) ! length (namespaces s)) = ClassDefNode cd"
    "parent_namespace (namespaces (snd pair) ! length (namespaces s)) = Some ns"
    if "tps \<noteq> []"
    unfolding pair_def
    by (rule definition_header_entry [where f = create_child_namespaces];
        simp add: ns grows_node that)+
  have ns1: "ns < length (namespaces (snd pair))" by (rule grows_length [OF g ns])
  have e: "s' =
     (each (map (\<lambda>nd. create_child_namespaces nd ns) decorator_list)
        (each (map (\<lambda>nd. create_child_namespaces nd (fst pair)) body)
           (each (map (\<lambda>nd. create_child_namespaces nd ns) kws)
              (each (map (\<lambda>nd. create_child_namespaces nd ns) bases) (snd pair)))))"
    unfolding s'_def pair_def cd by (simp add: Let_def split_beta)
  have t: "grows (snd pair) s'" unfolding e by (rule class_tail_grows [OF ns1 fn])
  have cl: "c < length (namespaces (snd pair))" using fn h(1) by simp
  have al: "length (namespaces s) < length (namespaces (snd pair))"
    using cl by (simp add: c_def split: if_splits)
  show "c < length (namespaces s')" by (rule grows_length [OF t cl])
  show "kind (namespaces s' ! c) = ClassNamespace" using grows_entry(1) [OF t cl] h by simp
  show "node (namespaces s' ! c) = ClassDefNode cd" using grows_entry(2) [OF t cl] h by simp
  show "parent_namespace (namespaces s' ! c)
           = Some (if cd_type_params cd = [] then ns else length (namespaces s))"
    using grows_entry(4) [OF t cl] h by (simp add: cd)
  show "kind (namespaces s' ! length (namespaces s)) = AnnotationNamespace"
    if "cd_type_params cd \<noteq> []"
    using grows_entry(1) [OF t al] ha that by (simp add: cd)
  show "parent_namespace (namespaces s' ! length (namespaces s)) = Some ns"
    if "cd_type_params cd \<noteq> []"
    using grows_entry(4) [OF t al] ha that by (simp add: cd)
  show "node (namespaces s' ! length (namespaces s)) = ClassDefNode cd"
    if "cd_type_params cd \<noteq> []"
    using grows_entry(2) [OF t al] ha that by (simp add: cd)
qed

lemma lambda_introduced:
  fixes l :: lambda and ns :: nat and s :: state
  assumes ns: "ns < length (namespaces s)"
  defines "s' \<equiv> create_lambda_namespace l ns s"
    and "c \<equiv> length (namespaces s)"
  shows "c < length (namespaces s')"
    and "kind (namespaces s' ! c) = FunctionNamespace"
    and "node (namespaces s' ! c) = LambdaNode l"
    and "parent_namespace (namespaces s' ! c) = Some ns"
proof -
  obtain a arguments body where l: "l = Lambda a arguments body" by (cases l)
  let ?s1 = "snd (new_child_namespace FunctionNamespace (LambdaNode l) ''Lambda'' ns s)"
  let ?s2 = "assign_arguments_to_namespace arguments ns c ?s1"
  have e: "s' = create_child_namespaces body c ?s2"
    unfolding s'_def l c_def by (simp add: split_beta)
  have cl: "c < length (namespaces ?s1)" and ns1: "ns < length (namespaces ?s1)"
    using ns by (simp_all add: c_def)
  have 2: "grows ?s1 ?s2" by (rule grows_arguments [OF ns1 cl])
  have 3: "grows ?s2 s'" unfolding e by (rule grows_node) (rule grows_length [OF 2 cl])
  have t: "grows ?s1 s'" by (rule grows_trans [OF 2 3])
  show "c < length (namespaces s')" by (rule grows_length [OF t cl])
  show "kind (namespaces s' ! c) = FunctionNamespace"
    using grows_entry(1) [OF t cl] new_child_namespace_entry(1) [OF ns] by (simp add: c_def)
  show "node (namespaces s' ! c) = LambdaNode l"
    using grows_entry(2) [OF t cl] new_child_namespace_entry(2) [OF ns] by (simp add: c_def)
  show "parent_namespace (namespaces s' ! c) = Some ns"
    using grows_entry(4) [OF t cl] new_child_namespace_entry(4) [OF ns] by (simp add: c_def)
qed

lemma create_comprehension_namespace_eq:
  "create_comprehension_namespace c ns s =
     each_generator
       (map (\<lambda>g it. comprehension_generator g it (length (namespaces s))) (comp_generators c))
       ns (length (namespaces s))
       (each (map (\<lambda>e. create_child_namespaces e (length (namespaces s))) (comp_elements c))
          (snd (new_child_namespace FunctionNamespace (CompNode c) (comp_name c) ns s)))"
  by (cases c)
     (simp_all add: comp_generators_def comp_elements_def comp_name_def split_beta each_def)

lemma comp_introduced:
  fixes cmp :: comp and ns :: nat and s :: state
  assumes ns: "ns < length (namespaces s)"
  defines "s' \<equiv> create_comprehension_namespace cmp ns s"
    and "c \<equiv> length (namespaces s)"
  shows "c < length (namespaces s')"
    and "kind (namespaces s' ! c) = FunctionNamespace"
    and "node (namespaces s' ! c) = CompNode cmp"
    and "parent_namespace (namespaces s' ! c) = Some ns"
proof -
  let ?s1 = "snd (new_child_namespace FunctionNamespace (CompNode cmp) (comp_name cmp) ns s)"
  let ?s2 = "each (map (\<lambda>e. create_child_namespaces e c) (comp_elements cmp)) ?s1"
  have e: "s' = each_generator
       (map (\<lambda>g it. comprehension_generator g it c) (comp_generators cmp)) ns c ?s2"
    unfolding s'_def c_def by (rule create_comprehension_namespace_eq)
  have cl: "c < length (namespaces ?s1)" and ns1: "ns < length (namespaces ?s1)"
    using ns by (simp_all add: c_def)
  have 2: "grows ?s1 ?s2" by (rule each_nodes_grow [OF cl])
  have 3: "grows ?s2 s'" unfolding e
    by (rule each_generator_grows [where f = "\<lambda>g it. comprehension_generator g it c"])
       (simp_all add: grows_generator grows_length [OF 2 cl] grows_length [OF 2 ns1])
  have t: "grows ?s1 s'" by (rule grows_trans [OF 2 3])
  show "c < length (namespaces s')" by (rule grows_length [OF t cl])
  show "kind (namespaces s' ! c) = FunctionNamespace"
    using grows_entry(1) [OF t cl] new_child_namespace_entry(1) [OF ns] by (simp add: c_def)
  show "node (namespaces s' ! c) = CompNode cmp"
    using grows_entry(2) [OF t cl] new_child_namespace_entry(2) [OF ns] by (simp add: c_def)
  show "parent_namespace (namespaces s' ! c) = Some ns"
    using grows_entry(4) [OF t cl] new_child_namespace_entry(4) [OF ns] by (simp add: c_def)
qed

lemma each_nodes_frame:
  "k \<notin> set (concat (map node_ids xs)) \<Longrightarrow>
     node_namespace (each (map (\<lambda>x. create_child_namespaces x ns) xs) s) k = node_namespace s k"
  by (rule each_map_frame, rule owner_frame_node) auto

lemma distinct_concat_member:
  "distinct (concat (map f xs)) \<Longrightarrow> x \<in> set xs \<Longrightarrow> distinct (f x)"
  by (induction xs) auto

lemma generator_owner:
  assumes d: "distinct (comprehension_ids g)"
  shows "node_namespace (comprehension_generator g it cn s) (nid (comprehension_attributes g))
           = Some cn"
    and "node_namespace (comprehension_generator g it cn s) (root_id (target g)) = Some cn"
    and "node_namespace (comprehension_generator g it cn s) (root_id (iter g)) = Some it"
    and "cond \<in> set (ifs g) \<Longrightarrow>
           node_namespace (comprehension_generator g it cn s) (root_id cond) = Some cn"
proof -
  obtain a tgt itn conds asy where g: "g = Comprehension a tgt itn conds asy" by (cases g)
  let ?s1 = "set_namespace a cn s"
  let ?s2 = "create_child_namespaces tgt cn ?s1"
  let ?s3 = "create_child_namespaces itn it ?s2"
  let ?s4 = "each (map (\<lambda>cond. create_child_namespaces cond cn) conds) ?s3"
  have e: "comprehension_generator g it cn s = ?s4" by (simp add: g)
  have d': "nid a \<notin> set (node_ids tgt)" "nid a \<notin> set (node_ids itn)"
    "nid a \<notin> set (concat (map node_ids conds))"
    "distinct (node_ids tgt)" "distinct (node_ids itn)" "distinct (concat (map node_ids conds))"
    "set (node_ids tgt) \<inter> set (node_ids itn) = {}"
    "set (node_ids tgt) \<inter> set (concat (map node_ids conds)) = {}"
    "set (node_ids itn) \<inter> set (concat (map node_ids conds)) = {}"
    using d by (auto simp: g)
  have rt: "root_id tgt \<notin> set (node_ids itn)" "root_id tgt \<notin> set (concat (map node_ids conds))"
    using d'(7,8) root_id_in [of tgt] by blast+
  have ri: "root_id itn \<notin> set (concat (map node_ids conds))"
    using d'(9) root_id_in [of itn] by blast
  have "node_namespace ?s4 (nid a) = node_namespace ?s3 (nid a)"
    by (rule each_nodes_frame [OF d'(3)])
  also have "\<dots> = node_namespace ?s2 (nid a)" by (rule owner_frame_node [OF d'(2)])
  also have "\<dots> = node_namespace ?s1 (nid a)" by (rule owner_frame_node [OF d'(1)])
  finally show "node_namespace (comprehension_generator g it cn s)
      (nid (comprehension_attributes g)) = Some cn"
    unfolding e by (simp add: g)
  have "node_namespace ?s4 (root_id tgt) = node_namespace ?s3 (root_id tgt)"
    by (rule each_nodes_frame [OF rt(2)])
  also have "\<dots> = node_namespace ?s2 (root_id tgt)" by (rule owner_frame_node [OF rt(1)])
  also have "\<dots> = Some cn" by (rule root_owner [OF d'(4)])
  finally show "node_namespace (comprehension_generator g it cn s) (root_id (target g)) = Some cn"
    unfolding e by (simp add: g)
  have "node_namespace ?s4 (root_id itn) = node_namespace ?s3 (root_id itn)"
    by (rule each_nodes_frame [OF ri])
  also have "\<dots> = Some it" by (rule root_owner [OF d'(5)])
  finally show "node_namespace (comprehension_generator g it cn s) (root_id (iter g)) = Some it"
    unfolding e by (simp add: g)
  show "node_namespace (comprehension_generator g it cn s) (root_id cond) = Some cn"
    if "cond \<in> set (ifs g)"
    unfolding e using that by (intro each_nodes_root_owner [OF _ d'(6)]) (simp add: g)
qed

lemma generator_ids_in:
  "nid (comprehension_attributes g) \<in> set (comprehension_ids g)"
  "root_id (target g) \<in> set (comprehension_ids g)"
  "root_id (iter g) \<in> set (comprehension_ids g)"
  "cond \<in> set (ifs g) \<Longrightarrow> root_id cond \<in> set (comprehension_ids g)"
  using root_id_in [of "target g"] root_id_in [of "iter g"] root_id_in [of cond]
  by (cases g; auto)+

text \<open>
  The loop over the clauses of a comprehension: a node that the visit of clause number \<open>i\<close>
  gives an owner keeps it, the visit having been made with the enclosing namespace for
  the first clause and the namespace of the comprehension for the others.
\<close>

lemma each_generator_owner:
  assumes hit: "\<And>it s. node_namespace (comprehension_generator (gs ! i) it c s) k = v it"
    and k: "k \<in> set (comprehension_ids (gs ! i))"
    and i: "i < length gs"
    and d: "distinct (concat (map comprehension_ids gs))"
  shows "node_namespace
           (each_generator (map (\<lambda>g it. comprehension_generator g it c) gs) p c s) k
         = v (if i = 0 then p else c)"
proof (cases gs)
  case Nil
  with i show ?thesis by simp
next
  case (Cons g gs')
  let ?f = "\<lambda>g it. comprehension_generator g it c"
  have e: "each_generator (map ?f gs) p c s = each (map (\<lambda>g. ?f g c) gs') (?f g p s)"
    using Cons by (simp add: each_generator_def comp_def)
  show ?thesis
  proof (cases i)
    case 0
    then have k': "k \<in> set (comprehension_ids g)" using k Cons by simp
    have "k \<notin> set (comprehension_ids x)" if "x \<in> set gs'" for x
      using d Cons k' that by auto
    then have "node_namespace (each (map (\<lambda>g. ?f g c) gs') (?f g p s)) k
        = node_namespace (?f g p s) k"
      by (intro each_map_frame owner_frame_generator)
    also have "\<dots> = v p" using hit [of p s] 0 Cons by simp
    finally show ?thesis unfolding e using 0 by simp
  next
    case (Suc j)
    have j: "gs ! i = gs' ! j" "j < length gs'" using Suc Cons i by simp_all
    have "node_namespace (each (map (\<lambda>g. ?f g c) gs') (?f g p s)) k = v c"
    proof (rule each_map_owner [where ids = comprehension_ids and y = "gs' ! j"])
      show "gs' ! j \<in> set gs'" using j(2) by simp
      show "k \<in> set (comprehension_ids (gs' ! j))" using k j(1) by simp
      show "distinct (concat (map comprehension_ids gs'))" using d Cons by simp
      show "\<And>s. node_namespace (comprehension_generator (gs' ! j) c c s) k = v c"
        using hit [of c] j(1) by simp
      show "\<And>x s. x \<in> set gs' \<Longrightarrow> k \<notin> set (comprehension_ids x) \<Longrightarrow>
          node_namespace (comprehension_generator x c c s) k = node_namespace s k"
        by (rule owner_frame_generator)
    qed
    then show ?thesis unfolding e using Suc by simp
  qed
qed

lemma comp_ids_eq:
  "comp_ids c = concat (map node_ids (comp_elements c))
                @ concat (map comprehension_ids (comp_generators c))"
  by (cases c) (simp_all add: comp_elements_def comp_generators_def)

text \<open>
  A pass that is a sequence of steps, each with the nodes it visits: when the nodes of the
  steps are disjoint, what one step assigns to one of its nodes is what the node has at
  the end.
\<close>

lemma steps_owner:
  assumes frame: "\<And>g I s. (g, I) \<in> set steps \<Longrightarrow> k \<notin> set I \<Longrightarrow>
             node_namespace (g s) k = node_namespace s k"
    and hit: "\<And>s. node_namespace (g s) k = v"
    and step: "(g, I) \<in> set steps" and k: "k \<in> set I"
    and d: "distinct (concat (map snd steps))"
  shows "node_namespace (each (map fst steps) s) k = v"
proof (rule each_map_owner [where f = fst and ids = snd and y = "(g, I)"])
  show "(g, I) \<in> set steps" by (rule step)
  show "k \<in> set (snd (g, I))" using k by simp
  show "distinct (concat (map snd steps))" by (rule d)
  show "\<And>s. node_namespace (fst (g, I) s) k = v" using hit by simp
  show "\<And>x s. x \<in> set steps \<Longrightarrow> k \<notin> set (snd x) \<Longrightarrow>
      node_namespace (fst x s) k = node_namespace s k"
    using frame by (metis prod.collapse)
qed

text \<open>The visit of one parameter, and of a variadic parameter.\<close>

lemma arg_root_in: "nid (arg_attributes p) \<in> set (arg_ids p)"
  by (cases p) simp

lemma arg_visit_frame:
  assumes "k \<notin> set (arg_ids p)"
  shows "node_namespace (annotation_namespaces p ns2
        (annotation_namespaces p ns1 (set_namespace (arg_attributes p) ns1 s))) k
     = node_namespace s k"
proof -
  have ne: "k \<noteq> nid (arg_attributes p)" using assms arg_root_in [of p] by blast
  show ?thesis
    by (simp only: owner_frame_annotation [OF assms] set_namespace_other [OF ne])
qed

lemma arg_visit_owner:
  assumes "distinct (arg_ids p)" and "annotation p = Some x"
  shows "node_namespace (annotation_namespaces p ns2 s) (root_id x) = Some ns2"
  using assms by (cases p) (simp add: if_present_def root_owner)

lemma starred_visit_frame:
  assumes "k \<notin> set (arg_ids p)"
  shows "node_namespace (annotation_namespaces p ns1 (set_namespace (arg_attributes p) ns1 s)) k
     = node_namespace s k"
proof -
  have ne: "k \<noteq> nid (arg_attributes p)" using assms arg_root_in [of p] by blast
  show ?thesis
    by (simp only: owner_frame_annotation [OF assms] set_namespace_other [OF ne])
qed

lemma annotation_root_in:
  "annotation p = Some x \<Longrightarrow> root_id x \<in> set (arg_ids p)"
  using root_id_in [of x] by (cases p) simp

lemma args_loop_frame:
  "k \<notin> set (concat (map arg_ids ps)) \<Longrightarrow>
     node_namespace
       (each (map (\<lambda>arg s. annotation_namespaces arg ns2
                 (annotation_namespaces arg ns1 (set_namespace (arg_attributes arg) ns1 s))) ps) s) k
     = node_namespace s k"
  by (rule each_map_frame, rule arg_visit_frame) auto

lemma args_loop_owner:
  assumes "p \<in> set ps" and "annotation p = Some x" and "distinct (concat (map arg_ids ps))"
  shows "node_namespace
       (each (map (\<lambda>arg s. annotation_namespaces arg ns2
                 (annotation_namespaces arg ns1 (set_namespace (arg_attributes arg) ns1 s))) ps) s)
       (root_id x) = Some ns2"
proof (rule each_map_owner [where ids = arg_ids and y = p])
  show "p \<in> set ps" by (rule assms(1))
  show "root_id x \<in> set (arg_ids p)" by (rule annotation_root_in [OF assms(2)])
  show "distinct (concat (map arg_ids ps))" by (rule assms(3))
  have "distinct (arg_ids p)" by (rule distinct_concat_member [OF assms(3,1)])
  then show "\<And>s. node_namespace (annotation_namespaces p ns2
        (annotation_namespaces p ns1 (set_namespace (arg_attributes p) ns1 s))) (root_id x)
      = Some ns2"
    by (rule arg_visit_owner [OF _ assms(2)])
  show "\<And>q s. q \<in> set ps \<Longrightarrow> root_id x \<notin> set (arg_ids q) \<Longrightarrow>
      node_namespace (annotation_namespaces q ns2
        (annotation_namespaces q ns1 (set_namespace (arg_attributes q) ns1 s))) (root_id x)
      = node_namespace s (root_id x)"
    by (rule arg_visit_frame)
qed

lemma kw_defaults_frame:
  "k \<notin> set (concat (map option_ids (map (map_option node_ids) ds))) \<Longrightarrow>
     node_namespace
       (each (map if_present (map (map_option (\<lambda>nd. create_child_namespaces nd ns)) ds)) s) k
     = node_namespace s k"
  by (rule each_if_present_frame, rule owner_frame_node) (auto simp: option_ids_def)

lemma kw_defaults_owner:
  assumes "Some x \<in> set ds"
    and "distinct (concat (map option_ids (map (map_option node_ids) ds)))"
  shows "node_namespace
       (each (map if_present (map (map_option (\<lambda>nd. create_child_namespaces nd ns)) ds)) s)
       (root_id x) = Some ns"
proof -
  have e: "map if_present (map (map_option (\<lambda>nd. create_child_namespaces nd ns)) ds)
      = map (\<lambda>d. if_present (map_option (\<lambda>nd. create_child_namespaces nd ns) d)) ds"
    by simp
  have d: "distinct (concat (map (\<lambda>d. option_ids (map_option node_ids d)) ds))"
    using assms(2) by (simp add: comp_def)
  show ?thesis
    unfolding e
  proof (rule each_map_owner [where ids = "\<lambda>d. option_ids (map_option node_ids d)"
        and y = "Some x"])
    show "Some x \<in> set ds" by (rule assms(1))
    show "root_id x \<in> set (option_ids (map_option node_ids (Some x)))"
      by (simp add: root_id_in)
    show "distinct (concat (map (\<lambda>d. option_ids (map_option node_ids d)) ds))" by (rule d)
    have "distinct (node_ids x)"
      using distinct_concat_member [OF d assms(1)] by simp
    then show "\<And>s. node_namespace
        (if_present (map_option (\<lambda>nd. create_child_namespaces nd ns) (Some x)) s) (root_id x)
        = Some ns"
      by (simp add: if_present_def root_owner)
    show "\<And>d s. d \<in> set ds \<Longrightarrow> root_id x \<notin> set (option_ids (map_option node_ids d)) \<Longrightarrow>
        node_namespace (if_present (map_option (\<lambda>nd. create_child_namespaces nd ns) d) s)
          (root_id x) = node_namespace s (root_id x)"
      by (rule if_present_frame, rule owner_frame_node) (auto simp: option_ids_def)
  qed
qed

lemma starred_frame:
  "k \<notin> set (option_ids (map_option arg_ids v)) \<Longrightarrow>
     node_namespace
       (if_present (map_option (\<lambda>v s. annotation_namespaces v ns
                       (set_namespace (arg_attributes v) ns s)) v) s) k
     = node_namespace s k"
  by (cases v) (simp_all add: if_present_def starred_visit_frame)

lemma starred_owner:
  assumes "v = Some p" and "annotation p = Some x"
    and "distinct (option_ids (map_option arg_ids v))"
  shows "node_namespace
       (if_present (map_option (\<lambda>v s. annotation_namespaces v ns
                       (set_namespace (arg_attributes v) ns s)) v) s) (root_id x) = Some ns"
  using assms by (simp add: if_present_def arg_visit_owner)

lemma arguments_owner:
  fixes ar :: arguments and p f :: nat and s :: state
  assumes d: "distinct (arguments_ids ar)"
  shows "q \<in> set (posonlyargs ar @ args ar @ kwonlyargs ar) \<Longrightarrow> annotation q = Some x \<Longrightarrow>
           node_namespace (assign_arguments_to_namespace ar p f s) (root_id x) = Some p"
    and "x \<in> set (defaults ar) \<Longrightarrow>
           node_namespace (assign_arguments_to_namespace ar p f s) (root_id x) = Some p"
    and "Some x \<in> set (kw_defaults ar) \<Longrightarrow>
           node_namespace (assign_arguments_to_namespace ar p f s) (root_id x) = Some p"
    and "q \<in> set_option (vararg ar) \<union> set_option (kwarg ar) \<Longrightarrow> annotation q = Some x \<Longrightarrow>
           node_namespace (assign_arguments_to_namespace ar p f s) (root_id x) = Some f"
proof -
  obtain a posonly regular var kwonly kwdefaults kw dflts
    where ar: "ar = Arguments a posonly regular var kwonly kwdefaults kw dflts" by (cases ar)
  define V where "V = (\<lambda>arg s. annotation_namespaces arg p
       (annotation_namespaces arg f (set_namespace (arg_attributes arg) f s)))"
  define W where "W = (\<lambda>v s. annotation_namespaces v f (set_namespace (arg_attributes v) f s))"
  define steps :: "((state \<Rightarrow> state) \<times> nat list) list" where "steps =
     [(set_namespace a f, [nid a]),
      (each (map V (posonly @ regular)), concat (map arg_ids (posonly @ regular))),
      (each (map V kwonly), concat (map arg_ids kwonly)),
      (each (map if_present (map (map_option (\<lambda>nd. create_child_namespaces nd p)) kwdefaults)),
       concat (map option_ids (map (map_option node_ids) kwdefaults))),
      (each (map (\<lambda>nd. create_child_namespaces nd p) dflts), concat (map node_ids dflts)),
      (if_present (map_option W var), option_ids (map_option arg_ids var)),
      (if_present (map_option W kw), option_ids (map_option arg_ids kw))]"
  have e: "assign_arguments_to_namespace ar p f s = each (map fst steps) s" for s
    by (simp add: ar steps_def each_def Let_def V_def W_def)
  have ds: "distinct (concat (map snd steps))"
    using d by (simp add: ar steps_def)
  have frame: "node_namespace (g s) k = node_namespace s k"
    if "(g, I) \<in> set steps" "k \<notin> set I" for g I s k
  proof -
    from that(1) consider
        "g = set_namespace a f" "I = [nid a]"
      | "g = each (map V (posonly @ regular))" "I = concat (map arg_ids (posonly @ regular))"
      | "g = each (map V kwonly)" "I = concat (map arg_ids kwonly)"
      | "g = each (map if_present
                (map (map_option (\<lambda>nd. create_child_namespaces nd p)) kwdefaults))"
        "I = concat (map option_ids (map (map_option node_ids) kwdefaults))"
      | "g = each (map (\<lambda>nd. create_child_namespaces nd p) dflts)"
        "I = concat (map node_ids dflts)"
      | "g = if_present (map_option W var)" "I = option_ids (map_option arg_ids var)"
      | "g = if_present (map_option W kw)" "I = option_ids (map_option arg_ids kw)"
      unfolding steps_def by (simp only: list.set insert_iff empty_iff prod.inject) blast
    then show ?thesis
    proof cases
      case 1
      with that(2) show ?thesis by simp
    next
      case 2
      from that(2) show ?thesis unfolding 2 V_def by (rule args_loop_frame)
    next
      case 3
      from that(2) show ?thesis unfolding 3 V_def by (rule args_loop_frame)
    next
      case 4
      from that(2) show ?thesis unfolding 4 by (rule kw_defaults_frame)
    next
      case 5
      from that(2) show ?thesis unfolding 5 by (rule each_nodes_frame)
    next
      case 6
      from that(2) show ?thesis unfolding 6 W_def by (rule starred_frame)
    next
      case 7
      from that(2) show ?thesis unfolding 7 W_def by (rule starred_frame)
    qed
  qed
  have so: "node_namespace (each (map fst steps) s) k = v"
    if "(g, I) \<in> set steps" "k \<in> set I" "\<And>s. node_namespace (g s) k = v"
    for g I k v s
  proof (rule steps_owner [where steps = steps and g = g and I = I])
    show "\<And>g I s. (g, I) \<in> set steps \<Longrightarrow> k \<notin> set I \<Longrightarrow>
        node_namespace (g s) k = node_namespace s k" by (rule frame)
    show "\<And>s. node_namespace (g s) k = v" by (rule that(3))
    show "(g, I) \<in> set steps" by (rule that(1))
    show "k \<in> set I" by (rule that(2))
    show "distinct (concat (map snd steps))" by (rule ds)
  qed
  have dl: "distinct (concat (map arg_ids (posonly @ regular)))"
    "distinct (concat (map arg_ids kwonly))"
    "distinct (concat (map option_ids (map (map_option node_ids) kwdefaults)))"
    "distinct (concat (map node_ids dflts))"
    "distinct (option_ids (map_option arg_ids var))"
    "distinct (option_ids (map_option arg_ids kw))"
    using d by (simp_all add: ar Int_Un_distrib)
  show "node_namespace (assign_arguments_to_namespace ar p f s) (root_id x) = Some p"
    if q: "q \<in> set (posonlyargs ar @ args ar @ kwonlyargs ar)" and x: "annotation q = Some x"
  proof (cases "q \<in> set (posonly @ regular)")
    case True
    show ?thesis
      unfolding e
    proof (rule so)
      show "(each (map V (posonly @ regular)), concat (map arg_ids (posonly @ regular)))
            \<in> set steps" by (simp add: steps_def)
      show "root_id x \<in> set (concat (map arg_ids (posonly @ regular)))"
        using True annotation_root_in [OF x] by auto
      show "\<And>s. node_namespace (each (map V (posonly @ regular)) s) (root_id x) = Some p"
        unfolding V_def by (rule args_loop_owner [OF True x dl(1)])
    qed
  next
    case False
    with q have k: "q \<in> set kwonly" by (simp add: ar)
    show ?thesis
      unfolding e
    proof (rule so)
      show "(each (map V kwonly), concat (map arg_ids kwonly)) \<in> set steps"
        by (simp add: steps_def)
      show "root_id x \<in> set (concat (map arg_ids kwonly))"
        using k annotation_root_in [OF x] by auto
      show "\<And>s. node_namespace (each (map V kwonly) s) (root_id x) = Some p"
        unfolding V_def by (rule args_loop_owner [OF k x dl(2)])
    qed
  qed
  show "node_namespace (assign_arguments_to_namespace ar p f s) (root_id x) = Some p"
    if x: "x \<in> set (defaults ar)"
    unfolding e
  proof (rule so)
    show "(each (map (\<lambda>nd. create_child_namespaces nd p) dflts), concat (map node_ids dflts))
          \<in> set steps" by (simp add: steps_def)
    show "root_id x \<in> set (concat (map node_ids dflts))"
      using x root_id_in [of x] by (auto simp: ar)
    show "\<And>s. node_namespace (each (map (\<lambda>nd. create_child_namespaces nd p) dflts) s)
        (root_id x) = Some p"
      by (rule each_nodes_root_owner [OF _ dl(4)]) (use x in \<open>simp add: ar\<close>)
  qed
  show "node_namespace (assign_arguments_to_namespace ar p f s) (root_id x) = Some p"
    if x: "Some x \<in> set (kw_defaults ar)"
    unfolding e
  proof (rule so)
    show "(each (map if_present
              (map (map_option (\<lambda>nd. create_child_namespaces nd p)) kwdefaults)),
           concat (map option_ids (map (map_option node_ids) kwdefaults))) \<in> set steps"
      by (simp add: steps_def)
    have "root_id x \<in> set (option_ids (map_option node_ids (Some x)))"
      by (simp add: root_id_in)
    then show "root_id x \<in> set (concat (map option_ids (map (map_option node_ids) kwdefaults)))"
      using x by (force simp: ar)
    show "\<And>s. node_namespace (each (map if_present
              (map (map_option (\<lambda>nd. create_child_namespaces nd p)) kwdefaults)) s)
        (root_id x) = Some p"
      by (rule kw_defaults_owner [OF _ dl(3)]) (use x in \<open>simp add: ar\<close>)
  qed
  show "node_namespace (assign_arguments_to_namespace ar p f s) (root_id x) = Some f"
    if q: "q \<in> set_option (vararg ar) \<union> set_option (kwarg ar)" and x: "annotation q = Some x"
  proof (cases "var = Some q")
    case True
    show ?thesis
      unfolding e
    proof (rule so)
      show "(if_present (map_option W var), option_ids (map_option arg_ids var)) \<in> set steps"
        by (simp add: steps_def)
      show "root_id x \<in> set (option_ids (map_option arg_ids var))"
        using True annotation_root_in [OF x] by simp
      show "\<And>s. node_namespace (if_present (map_option W var) s) (root_id x) = Some f"
        unfolding W_def by (rule starred_owner [OF True x dl(5)])
    qed
  next
    case False
    with q have k: "kw = Some q" by (auto simp: ar)
    show ?thesis
      unfolding e
    proof (rule so)
      show "(if_present (map_option W kw), option_ids (map_option arg_ids kw)) \<in> set steps"
        by (simp add: steps_def)
      show "root_id x \<in> set (option_ids (map_option arg_ids kw))"
        using k annotation_root_in [OF x] by simp
      show "\<And>s. node_namespace (if_present (map_option W kw) s) (root_id x) = Some f"
        unfolding W_def by (rule starred_owner [OF k x dl(6)])
    qed
  qed
qed

lemma arguments_roots_in:
  "q \<in> set (posonlyargs ar @ args ar @ kwonlyargs ar) \<Longrightarrow> annotation q = Some x \<Longrightarrow>
     root_id x \<in> set (arguments_ids ar)"
  "x \<in> set (defaults ar) \<Longrightarrow> root_id x \<in> set (arguments_ids ar)"
  "Some x \<in> set (kw_defaults ar) \<Longrightarrow> root_id x \<in> set (arguments_ids ar)"
  "q \<in> set_option (vararg ar) \<union> set_option (kwarg ar) \<Longrightarrow> annotation q = Some x \<Longrightarrow>
     root_id x \<in> set (arguments_ids ar)"
proof -
  obtain a posonly regular var kwonly kwdefaults kw dflts
    where ar: "ar = Arguments a posonly regular var kwonly kwdefaults kw dflts" by (cases ar)
  show "root_id x \<in> set (arguments_ids ar)"
    if "q \<in> set (posonlyargs ar @ args ar @ kwonlyargs ar)" "annotation q = Some x"
    using that annotation_root_in [OF that(2)] by (auto simp: ar)
  show "root_id x \<in> set (arguments_ids ar)" if "x \<in> set (defaults ar)"
    using that root_id_in [of x] by (auto simp: ar)
  show "root_id x \<in> set (arguments_ids ar)" if "Some x \<in> set (kw_defaults ar)"
  proof -
    have "root_id x \<in> set (option_ids (map_option node_ids (Some x)))"
      by (simp add: root_id_in)
    then have "root_id x \<in> set (concat (map option_ids (map (map_option node_ids) kwdefaults)))"
      using that by (force simp: ar)
    then show ?thesis by (simp add: ar)
  qed
  show "root_id x \<in> set (arguments_ids ar)"
    if "q \<in> set_option (vararg ar) \<union> set_option (kwarg ar)" "annotation q = Some x"
    using that annotation_root_in [OF that(2)] by (auto simp: ar)
qed

lemma if_present_node_frame:
  "k \<notin> set (option_ids (map_option node_ids r)) \<Longrightarrow>
     node_namespace (if_present (map_option (\<lambda>r. create_child_namespaces r ns) r) s) k
     = node_namespace s k"
  by (cases r) (simp_all add: if_present_def owner_frame_node)

lemma functiondef_owner:
  fixes fd :: functiondef and ns :: nat and s :: state
  assumes tps: "fd_type_params fd \<noteq> []" and d: "distinct (functiondef_ids fd)"
  defines "s' \<equiv> create_functiondef_namespace fd ns s"
    and "an \<equiv> length (namespaces s)"
  shows "tp \<in> set (fd_type_params fd) \<Longrightarrow> node_namespace s' (root_id tp) = Some an"
    and "q \<in> set (posonlyargs (fd_args fd) @ args (fd_args fd) @ kwonlyargs (fd_args fd)) \<Longrightarrow>
           annotation q = Some x \<Longrightarrow> node_namespace s' (root_id x) = Some ns"
    and "fd_returns fd = Some x \<Longrightarrow> node_namespace s' (root_id x) = Some ns"
    and "x \<in> set (defaults (fd_args fd)) \<Longrightarrow> node_namespace s' (root_id x) = Some ns"
    and "Some x \<in> set (kw_defaults (fd_args fd)) \<Longrightarrow> node_namespace s' (root_id x) = Some ns"
    and "q \<in> set_option (vararg (fd_args fd)) \<union> set_option (kwarg (fd_args fd)) \<Longrightarrow>
           annotation q = Some x \<Longrightarrow> node_namespace s' (root_id x) = Some (Suc an)"
proof -
  obtain a asy nm arguments body decorator_list returns type_params
    where fd: "fd = FunctionDef a asy nm arguments body decorator_list returns type_params"
    by (cases fd)
  define steps :: "((state \<Rightarrow> state) \<times> nat list) list" where "steps =
     [(\<lambda>s. snd (new_child_namespace AnnotationNamespace (FunctionDefNode fd) nm ns s), []),
      (\<lambda>s. snd (new_child_namespace FunctionNamespace (FunctionDefNode fd) nm an s), []),
      (each (map (\<lambda>tp. create_child_namespaces tp an) type_params),
       concat (map node_ids type_params)),
      (assign_arguments_to_namespace arguments ns (Suc an), arguments_ids arguments),
      (each (map (\<lambda>nd. create_child_namespaces nd (Suc an)) body), concat (map node_ids body)),
      (each (map (\<lambda>nd. create_child_namespaces nd ns) decorator_list),
       concat (map node_ids decorator_list)),
      (if_present (map_option (\<lambda>r. create_child_namespaces r ns) returns),
       option_ids (map_option node_ids returns))]"
  have e: "s' = each (map fst steps) s"
    using tps unfolding s'_def an_def
    by (simp add: fd steps_def each_def Let_def split_beta an_def)
  have ds: "distinct (concat (map snd steps))"
    using d by (simp add: fd steps_def)
  have frame: "node_namespace (g s) k = node_namespace s k"
    if "(g, I) \<in> set steps" "k \<notin> set I" for g I s k
  proof -
    from that(1) consider
        "g = (\<lambda>s. snd (new_child_namespace AnnotationNamespace (FunctionDefNode fd) nm ns s))"
      | "g = (\<lambda>s. snd (new_child_namespace FunctionNamespace (FunctionDefNode fd) nm an s))"
      | "g = each (map (\<lambda>tp. create_child_namespaces tp an) type_params)"
        "I = concat (map node_ids type_params)"
      | "g = assign_arguments_to_namespace arguments ns (Suc an)" "I = arguments_ids arguments"
      | "g = each (map (\<lambda>nd. create_child_namespaces nd (Suc an)) body)"
        "I = concat (map node_ids body)"
      | "g = each (map (\<lambda>nd. create_child_namespaces nd ns) decorator_list)"
        "I = concat (map node_ids decorator_list)"
      | "g = if_present (map_option (\<lambda>r. create_child_namespaces r ns) returns)"
        "I = option_ids (map_option node_ids returns)"
      unfolding steps_def by (simp only: list.set insert_iff empty_iff prod.inject) blast
    then show ?thesis
    proof cases
      case 1
      then show ?thesis by simp
    next
      case 2
      then show ?thesis by simp
    next
      case 3
      from that(2) show ?thesis unfolding 3 by (rule each_nodes_frame)
    next
      case 4
      from that(2) show ?thesis unfolding 4 by (rule owner_frame_arguments)
    next
      case 5
      from that(2) show ?thesis unfolding 5 by (rule each_nodes_frame)
    next
      case 6
      from that(2) show ?thesis unfolding 6 by (rule each_nodes_frame)
    next
      case 7
      from that(2) show ?thesis unfolding 7 by (rule if_present_node_frame)
    qed
  qed
  have so: "node_namespace (each (map fst steps) s) k = v"
    if "(g, I) \<in> set steps" "k \<in> set I" "\<And>s. node_namespace (g s) k = v"
    for g I k v s
  proof (rule steps_owner [where steps = steps and g = g and I = I])
    show "\<And>g I s. (g, I) \<in> set steps \<Longrightarrow> k \<notin> set I \<Longrightarrow>
        node_namespace (g s) k = node_namespace s k" by (rule frame)
    show "\<And>s. node_namespace (g s) k = v" by (rule that(3))
    show "(g, I) \<in> set steps" by (rule that(1))
    show "k \<in> set I" by (rule that(2))
    show "distinct (concat (map snd steps))" by (rule ds)
  qed
  have dl: "distinct (concat (map node_ids type_params))" "distinct (arguments_ids arguments)"
    "distinct (option_ids (map_option node_ids returns))"
    using d by (simp_all add: fd)
  have st: "(each (map (\<lambda>tp. create_child_namespaces tp an) type_params),
       concat (map node_ids type_params)) \<in> set steps"
    "(assign_arguments_to_namespace arguments ns (Suc an), arguments_ids arguments) \<in> set steps"
    "(if_present (map_option (\<lambda>r. create_child_namespaces r ns) returns),
       option_ids (map_option node_ids returns)) \<in> set steps"
    by (simp_all add: steps_def)
  show "node_namespace s' (root_id tp) = Some an" if "tp \<in> set (fd_type_params fd)"
    unfolding e
  proof (rule so [OF st(1)])
    show "root_id tp \<in> set (concat (map node_ids type_params))"
      using that root_id_in [of tp] by (auto simp: fd)
    show "\<And>s. node_namespace (each (map (\<lambda>tp. create_child_namespaces tp an) type_params) s)
        (root_id tp) = Some an"
      by (rule each_nodes_root_owner [OF _ dl(1)]) (use that in \<open>simp add: fd\<close>)
  qed
  show "node_namespace s' (root_id x) = Some ns"
    if "q \<in> set (posonlyargs (fd_args fd) @ args (fd_args fd) @ kwonlyargs (fd_args fd))"
      "annotation q = Some x"
    unfolding e
  proof (rule so [OF st(2)])
    show "root_id x \<in> set (arguments_ids arguments)"
      using arguments_roots_in(1) [OF that] by (simp add: fd)
    show "\<And>s. node_namespace (assign_arguments_to_namespace arguments ns (Suc an) s) (root_id x)
        = Some ns"
      using arguments_owner(1) [where q = q, OF dl(2) _ that(2)] that(1) by (simp add: fd)
  qed
  show "node_namespace s' (root_id x) = Some ns" if "fd_returns fd = Some x"
    unfolding e
  proof (rule so [OF st(3)])
    from that have r: "returns = Some x" by (simp add: fd)
    show "root_id x \<in> set (option_ids (map_option node_ids returns))"
      by (simp add: r root_id_in)
    have "distinct (node_ids x)" using dl(3) by (simp add: r)
    then show "\<And>s. node_namespace
        (if_present (map_option (\<lambda>r. create_child_namespaces r ns) returns) s) (root_id x)
        = Some ns"
      by (simp add: r if_present_def root_owner)
  qed
  show "node_namespace s' (root_id x) = Some ns" if "x \<in> set (defaults (fd_args fd))"
    unfolding e
  proof (rule so [OF st(2)])
    show "root_id x \<in> set (arguments_ids arguments)"
      using arguments_roots_in(2) [OF that] by (simp add: fd)
    show "\<And>s. node_namespace (assign_arguments_to_namespace arguments ns (Suc an) s) (root_id x)
        = Some ns"
      using arguments_owner(2) [where x = x, OF dl(2)] that by (simp add: fd)
  qed
  show "node_namespace s' (root_id x) = Some ns" if "Some x \<in> set (kw_defaults (fd_args fd))"
    unfolding e
  proof (rule so [OF st(2)])
    show "root_id x \<in> set (arguments_ids arguments)"
      using arguments_roots_in(3) [OF that] by (simp add: fd)
    show "\<And>s. node_namespace (assign_arguments_to_namespace arguments ns (Suc an) s) (root_id x)
        = Some ns"
      using arguments_owner(3) [where x = x, OF dl(2)] that by (simp add: fd)
  qed
  show "node_namespace s' (root_id x) = Some (Suc an)"
    if "q \<in> set_option (vararg (fd_args fd)) \<union> set_option (kwarg (fd_args fd))"
      "annotation q = Some x"
    unfolding e
  proof (rule so [OF st(2)])
    show "root_id x \<in> set (arguments_ids arguments)"
      using arguments_roots_in(4) [OF that] by (simp add: fd)
    show "\<And>s. node_namespace (assign_arguments_to_namespace arguments ns (Suc an) s) (root_id x)
        = Some (Suc an)"
      using arguments_owner(4) [where q = q, OF dl(2) _ that(2)] that(1) by (simp add: fd)
  qed
qed

lemma classdef_owner:
  fixes cd :: classdef and ns :: nat and s :: state
  assumes tps: "cd_type_params cd \<noteq> []" and d: "distinct (classdef_ids cd)"
    and tp: "tp \<in> set (cd_type_params cd)"
  shows "node_namespace (create_class_namespace cd ns s) (root_id tp)
           = Some (length (namespaces s))"
proof -
  obtain a nm bases kws body decorator_list type_params
    where cd: "cd = ClassDef a nm bases kws body decorator_list type_params"
    by (cases cd)
  define an where "an = length (namespaces s)"
  define steps :: "((state \<Rightarrow> state) \<times> nat list) list" where "steps =
     [(\<lambda>s. snd (new_child_namespace AnnotationNamespace (ClassDefNode cd) nm ns s), []),
      (\<lambda>s. snd (new_child_namespace ClassNamespace (ClassDefNode cd) nm an s), []),
      (each (map (\<lambda>tp. create_child_namespaces tp an) type_params),
       concat (map node_ids type_params)),
      (each (map (\<lambda>nd. create_child_namespaces nd ns) bases), concat (map node_ids bases)),
      (each (map (\<lambda>nd. create_child_namespaces nd ns) kws), concat (map node_ids kws)),
      (each (map (\<lambda>nd. create_child_namespaces nd (Suc an)) body), concat (map node_ids body)),
      (each (map (\<lambda>nd. create_child_namespaces nd ns) decorator_list),
       concat (map node_ids decorator_list))]"
  have e: "create_class_namespace cd ns s = each (map fst steps) s"
    using tps unfolding an_def
    by (simp add: cd steps_def each_def Let_def split_beta an_def)
  have ds: "distinct (concat (map snd steps))"
    using d by (simp add: cd steps_def)
  have frame: "node_namespace (g s) k = node_namespace s k"
    if "(g, I) \<in> set steps" "k \<notin> set I" for g I s k
  proof -
    from that(1) consider
        "g = (\<lambda>s. snd (new_child_namespace AnnotationNamespace (ClassDefNode cd) nm ns s))"
      | "g = (\<lambda>s. snd (new_child_namespace ClassNamespace (ClassDefNode cd) nm an s))"
      | np where "g = each (map (\<lambda>nd. create_child_namespaces nd np) type_params)"
        "I = concat (map node_ids type_params)"
      | np where "g = each (map (\<lambda>nd. create_child_namespaces nd np) bases)"
        "I = concat (map node_ids bases)"
      | np where "g = each (map (\<lambda>nd. create_child_namespaces nd np) kws)"
        "I = concat (map node_ids kws)"
      | np where "g = each (map (\<lambda>nd. create_child_namespaces nd np) body)"
        "I = concat (map node_ids body)"
      | np where "g = each (map (\<lambda>nd. create_child_namespaces nd np) decorator_list)"
        "I = concat (map node_ids decorator_list)"
      unfolding steps_def by (simp only: list.set insert_iff empty_iff prod.inject) blast
    then show ?thesis
    proof cases
      case 1
      then show ?thesis by simp
    next
      case 2
      then show ?thesis by simp
    next
      case 3
      from that(2) show ?thesis unfolding 3 by (rule each_nodes_frame)
    next
      case 4
      from that(2) show ?thesis unfolding 4 by (rule each_nodes_frame)
    next
      case 5
      from that(2) show ?thesis unfolding 5 by (rule each_nodes_frame)
    next
      case 6
      from that(2) show ?thesis unfolding 6 by (rule each_nodes_frame)
    next
      case 7
      from that(2) show ?thesis unfolding 7 by (rule each_nodes_frame)
    qed
  qed
  have dl: "distinct (concat (map node_ids type_params))"
    using d by (simp add: cd)
  show ?thesis
    unfolding e an_def [symmetric]
  proof (rule steps_owner [where steps = steps
        and g = "each (map (\<lambda>tp. create_child_namespaces tp an) type_params)"
        and I = "concat (map node_ids type_params)"])
    show "\<And>g I s. (g, I) \<in> set steps \<Longrightarrow> root_id tp \<notin> set I \<Longrightarrow>
        node_namespace (g s) (root_id tp) = node_namespace s (root_id tp)" by (rule frame)
    show "(each (map (\<lambda>tp. create_child_namespaces tp an) type_params),
        concat (map node_ids type_params)) \<in> set steps" by (simp add: steps_def)
    show "distinct (concat (map snd steps))" by (rule ds)
    show "root_id tp \<in> set (concat (map node_ids type_params))"
      using tp root_id_in [of tp] by (auto simp: cd)
    show "\<And>s. node_namespace (each (map (\<lambda>tp. create_child_namespaces tp an) type_params) s)
        (root_id tp) = Some an"
      by (rule each_nodes_root_owner [OF _ dl]) (use tp in \<open>simp add: cd\<close>)
  qed
qed

section \<open>Nodes that introduce a namespace\<close>

text \<open>
  C10: a node that introduces a namespace (a function definition, a lambda, a class
  definition, a comprehension) gets the enclosing namespace as its own namespace, not the
  one it introduces; the namespace it introduces is a new entry of the arena, of function
  kind (class kind for a class definition), whose \<open>node\<close> is that node. The new entry comes
  right after the namespaces that were there, or one later when the definition has type
  parameters and an annotation namespace comes first. The nodes of the tree are taken to be
  distinct objects.
\<close>

theorem C10_introducing_node_owner:
  assumes "introduces_namespace n" and "distinct (node_ids n)" and "ns < length (namespaces s)"
  shows "let s' = create_child_namespaces n ns s;
             c = length (namespaces s) + (if type_params_of n = [] then 0 else 1)
         in node_namespace s' (root_id n) = Some ns
            \<and> c < length (namespaces s') \<and> c \<noteq> ns
            \<and> node (namespaces s' ! c) = n
            \<and> kind (namespaces s' ! c) = introduced_kind n"
proof -
  have o: "node_namespace (create_child_namespaces n ns s) (root_id n) = Some ns"
    by (rule root_owner [OF assms(2)])
  show ?thesis
  proof (cases n)
    case (FunctionDefNode fd)
    have l: "ns < length (namespaces (set_namespace (fd_attributes fd) ns s))"
      using assms(3) by simp
    show ?thesis
      using o functiondef_introduced(1-3) [OF l, of fd] assms(3)
      by (simp add: FunctionDefNode Let_def type_params_of_def introduced_kind_def)
  next
    case (LambdaNode l)
    have l': "ns < length (namespaces (set_namespace (lambda_attributes l) ns s))"
      using assms(3) by simp
    show ?thesis
      using o lambda_introduced(1-3) [OF l', of l] assms(3)
      by (simp add: LambdaNode Let_def type_params_of_def introduced_kind_def)
  next
    case (ClassDefNode cd)
    have l: "ns < length (namespaces (set_namespace (cd_attributes cd) ns s))"
      using assms(3) by simp
    show ?thesis
      using o classdef_introduced(1-3) [OF l, of cd] assms(3)
      by (simp add: ClassDefNode Let_def type_params_of_def introduced_kind_def)
  next
    case (CompNode c)
    have l: "ns < length (namespaces (set_namespace (comp_attributes c) ns s))"
      using assms(3) by simp
    show ?thesis
      using o comp_introduced(1-3) [OF l, of c] assms(3)
      by (simp add: CompNode Let_def type_params_of_def introduced_kind_def)
  qed (use assms(1) in \<open>simp_all add: introduces_namespace_def\<close>)
qed

text \<open>
  Witness for C10: the definition \<^verbatim>\<open>def f[T](x: T = D) -> T: pass\<close> in a module. The
  definition node (number 1) belongs to the module namespace 0, and namespace 2, the
  function namespace, has it as its node.
\<close>

theorem C10_witness:
  "introduces_namespace (FunctionDefNode generic_def)
   \<and> distinct (node_ids (FunctionDefNode generic_def))
   \<and> node_namespace
        (create_child_namespaces (FunctionDefNode generic_def) 0 (module_state generic_module)) 1
       = Some 0
   \<and> node (namespaces
        (create_child_namespaces (FunctionDefNode generic_def) 0 (module_state generic_module)) ! 2)
       = FunctionDefNode generic_def
   \<and> kind (namespaces
        (create_child_namespaces (FunctionDefNode generic_def) 0 (module_state generic_module)) ! 2)
       = FunctionNamespace"
proof -
  have i: "introduces_namespace (FunctionDefNode generic_def)"
    by (simp add: introduces_namespace_def)
  have d: "distinct (node_ids (FunctionDefNode generic_def))"
    by (simp add: generic_def_def node_at_def)
  have l: "0 < length (namespaces (module_state generic_module))"
    by (simp add: module_state_def)
  have r: "root_id (FunctionDefNode generic_def) = 1"
    by (simp add: root_id_def generic_def_def node_at_def)
  have t: "type_params_of (FunctionDefNode generic_def) \<noteq> []"
    by (simp add: type_params_of_def generic_def_def)
  have k: "introduced_kind (FunctionDefNode generic_def) = FunctionNamespace"
    by (simp add: introduced_kind_def)
  have n: "length (namespaces (module_state generic_module)) = 1"
    by (simp add: module_state_def)
  from C10_introducing_node_owner [OF i d l] i d show ?thesis
    unfolding Let_def r k n using t by (simp add: numeral_2_eq_2)
qed


section \<open>Comprehensions\<close>

text \<open>
  C5: a comprehension (generator expression, set, list or dictionary comprehension) gets a
  new namespace of function kind, a child of the enclosing namespace, with the
  comprehension as its node. The iterable of the first clause belongs to the enclosing
  namespace; the iterable of every later clause, the element (or key and value), the
  target of every clause, every condition and every clause node belong to the namespace of
  the comprehension. The nodes of the tree are taken to be distinct objects.
\<close>

theorem C5_comprehension_scopes:
  assumes "distinct (node_ids (CompNode cmp))" and "ns < length (namespaces s)"
  shows "let s' = create_child_namespaces (CompNode cmp) ns s;
             c = length (namespaces s);
             gs = comp_generators cmp
         in c < length (namespaces s')
            \<and> kind (namespaces s' ! c) = FunctionNamespace
            \<and> node (namespaces s' ! c) = CompNode cmp
            \<and> parent_namespace (namespaces s' ! c) = Some ns
            \<and> (\<forall>e \<in> set (comp_elements cmp). node_namespace s' (root_id e) = Some c)
            \<and> (\<forall>i < length gs.
                  node_namespace s' (root_id (iter (gs ! i))) = Some (if i = 0 then ns else c)
                  \<and> node_namespace s' (root_id (target (gs ! i))) = Some c
                  \<and> node_namespace s' (nid (comprehension_attributes (gs ! i))) = Some c
                  \<and> (\<forall>cond \<in> set (ifs (gs ! i)). node_namespace s' (root_id cond) = Some c))"
proof -
  define s0 where "s0 = set_namespace (comp_attributes cmp) ns s"
  define c where "c = length (namespaces s)"
  define gs where "gs = comp_generators cmp"
  define s1 where
    "s1 = snd (new_child_namespace FunctionNamespace (CompNode cmp) (comp_name cmp) ns s0)"
  define s2 where
    "s2 = each (map (\<lambda>e. create_child_namespaces e c) (comp_elements cmp)) s1"
  define s' where "s' = create_child_namespaces (CompNode cmp) ns s"
  have l0: "ns < length (namespaces s0)" and c0: "length (namespaces s0) = c"
    using assms(2) by (simp_all add: s0_def c_def)
  have s': "s' = create_comprehension_namespace cmp ns s0"
    by (simp add: s'_def s0_def)
  have e: "s' = each_generator (map (\<lambda>g it. comprehension_generator g it c) gs) ns c s2"
    unfolding s' s2_def s1_def gs_def c0 [symmetric] by (rule create_comprehension_namespace_eq)
  have d: "distinct (concat (map node_ids (comp_elements cmp)))"
    "distinct (concat (map comprehension_ids gs))"
    "set (concat (map node_ids (comp_elements cmp))) \<inter> set (concat (map comprehension_ids gs)) = {}"
    using assms(1) by (simp_all add: comp_ids_eq gs_def)
  have intro: "c < length (namespaces s')" "kind (namespaces s' ! c) = FunctionNamespace"
    "node (namespaces s' ! c) = CompNode cmp" "parent_namespace (namespaces s' ! c) = Some ns"
    using comp_introduced [OF l0, of cmp] by (simp_all add: s' c0)
  have el: "node_namespace s' (root_id x) = Some c" if x: "x \<in> set (comp_elements cmp)" for x
  proof -
    have "root_id x \<in> set (concat (map node_ids (comp_elements cmp)))"
      using x root_id_in [of x] by auto
    with d(3) have "root_id x \<notin> set (comprehension_ids g)" if "g \<in> set gs" for g
      using that by auto
    then have "node_namespace s' (root_id x) = node_namespace s2 (root_id x)"
      unfolding e
      by (intro each_generator_frame [where f = "\<lambda>g it. comprehension_generator g it c"]
            owner_frame_generator)
    also have "\<dots> = Some c" unfolding s2_def by (rule each_nodes_root_owner [OF x d(1)])
    finally show ?thesis .
  qed
  have gen: "node_namespace s' (root_id (iter (gs ! i))) = Some (if i = 0 then ns else c)
           \<and> node_namespace s' (root_id (target (gs ! i))) = Some c
           \<and> node_namespace s' (nid (comprehension_attributes (gs ! i))) = Some c
           \<and> (\<forall>cond \<in> set (ifs (gs ! i)). node_namespace s' (root_id cond) = Some c)"
    if i: "i < length gs" for i
  proof -
    have dg: "distinct (comprehension_ids (gs ! i))"
      by (rule distinct_concat_member [OF d(2)]) (use i in simp)
    have 1: "node_namespace s' (root_id (iter (gs ! i))) = Some (if i = 0 then ns else c)"
      unfolding e
      by (rule each_generator_owner [where v = Some, OF generator_owner(3) [OF dg]
            generator_ids_in(3) i d(2)])
    have 2: "node_namespace s' (root_id (target (gs ! i))) = Some c"
      unfolding e
      by (rule each_generator_owner [where v = "\<lambda>it. Some c", OF generator_owner(2) [OF dg]
            generator_ids_in(2) i d(2)])
    have 3: "node_namespace s' (nid (comprehension_attributes (gs ! i))) = Some c"
      unfolding e
      by (rule each_generator_owner [where v = "\<lambda>it. Some c", OF generator_owner(1) [OF dg]
            generator_ids_in(1) i d(2)])
    have 4: "node_namespace s' (root_id cond) = Some c" if "cond \<in> set (ifs (gs ! i))" for cond
      unfolding e
      by (rule each_generator_owner [where v = "\<lambda>it. Some c",
            OF generator_owner(4) [OF dg that] generator_ids_in(4) [OF that] i d(2)])
    from 1 2 3 4 show ?thesis by blast
  qed
  from intro el gen show ?thesis
    unfolding Let_def s'_def [symmetric] c_def [symmetric] gs_def [symmetric] by blast
qed

text \<open>
  Witness for C5: \<^verbatim>\<open>[y for x in xs if x for y in x]\<close> in a module. The iterable \<open>xs\<close>
  (node 5) belongs to the module namespace 0; the second iterable (node 9), the element
  (node 2), the two targets (nodes 4 and 8) and the condition (node 6) belong to
  namespace 1, the namespace of the comprehension.
\<close>

theorem C5_witness:
  "distinct (node_ids (CompNode nested_comp))
   \<and> kind (namespaces
        (create_child_namespaces (CompNode nested_comp) 0 (module_state (CompNode nested_comp))) ! 1)
       = FunctionNamespace
   \<and> map (node_namespace
        (create_child_namespaces (CompNode nested_comp) 0 (module_state (CompNode nested_comp))))
       [5, 9, 2, 4, 8, 6]
       = [Some 0, Some 1, Some 1, Some 1, Some 1, Some 1]"
proof -
  define s' where
    "s' = create_child_namespaces (CompNode nested_comp) 0 (module_state (CompNode nested_comp))"
  have d: "distinct (node_ids (CompNode nested_comp))"
    by (simp add: nested_comp_def node_at_def)
  have l: "0 < length (namespaces (module_state (CompNode nested_comp)))"
    and n: "length (namespaces (module_state (CompNode nested_comp))) = 1"
    by (simp_all add: module_state_def)
  have g: "comp_generators nested_comp =
      [Comprehension (node_at 3) (Name (node_at 4) ''x'' Store ''comprehension'')
          (Name (node_at 5) ''xs'' Load ''comprehension'')
          [Name (node_at 6) ''x'' Load ''comprehension''] False,
        Comprehension (node_at 7) (Name (node_at 8) ''y'' Store ''comprehension'')
          (Name (node_at 9) ''x'' Load ''comprehension'') [] False]"
    and el: "comp_elements nested_comp = [Name (node_at 2) ''y'' Load ''ListComp'']"
    by (simp_all add: comp_generators_def comp_elements_def nested_comp_def)
  note c5 = C5_comprehension_scopes [OF d l, unfolded Let_def n, folded s'_def]
  note gen = c5 [THEN conjunct2, THEN conjunct2, THEN conjunct2, THEN conjunct2, THEN conjunct2,
      rule_format]
  from c5 have k: "kind (namespaces s' ! 1) = FunctionNamespace" by blast
  from c5 have e: "node_namespace s' 2 = Some 1" by (simp add: el root_id_def node_at_def)
  from gen [of 0] have g0: "node_namespace s' 5 = Some 0" "node_namespace s' 4 = Some 1"
      "node_namespace s' 6 = Some 1"
    by (simp_all add: g root_id_def node_at_def)
  from gen [of 1] have g1: "node_namespace s' 9 = Some 1" "node_namespace s' 8 = Some 1"
    by (simp_all add: g root_id_def node_at_def)
  from d k e g0 g1 show ?thesis unfolding s'_def by simp
qed

section \<open>Type parameters\<close>




end
